theory Spec2Isabelle
  imports Complex_Main "HOL-Library.Product_Lexorder"
begin

section \<open>The travelling-salesman notebook \<open>routing-part1.ipynb\<close>\<close>

text \<open>
  The notebook builds a cost matrix of travel times, assembles the Miller-Tucker-Zemlin
  integer program with docplex, solves it and turns the solved arc variables into the edges
  of a directed graph. The cells are embedded below in the order of the notebook and are
  numbered by their position in the notebook file, from 0. Costs and solution values are
  Python floats; they are modelled as reals (every float is a real, and no statement below
  depends on rounding).
\<close>

subsection \<open>Cost matrix (cells 12 and 14)\<close>

text \<open>
  \<open>get_distance\<close> calls the Google Maps client and returns the duration in seconds, or
  raises. It is a parameter: \<open>None\<close> is a raised exception, \<open>Some d\<close> the integer that
  is returned.
\<close>

datatype error = LookupFailed nat nat | NoSolution

type_synonym matrix = "real list list"

type_synonym 'loc get_distance = "'loc \<Rightarrow> 'loc \<Rightarrow> int option"

text \<open>\<open>np.zeros((n,n))\<close>\<close>

definition zeros :: "nat \<Rightarrow> matrix" where
  "zeros n = replicate n (replicate n 0)"

text \<open>\<open>cost[i,j] = v\<close>, an in-place write; the indices are in range wherever it is used.\<close>

definition set_entry :: "matrix \<Rightarrow> nat \<Rightarrow> nat \<Rightarrow> real \<Rightarrow> matrix" where
  "set_entry c i j v = c[i := (c ! i)[j := v]]"

text \<open>
  The state of the two nested loops of cell 14: the matrix written so far and, as a log
  of the effect, the index pairs for which \<open>get_distance\<close> has returned.
\<close>

record build_state =
  cost :: matrix
  calls :: "(nat \<times> nat) list"

fun inner_loop ::
  "'loc list \<Rightarrow> 'loc get_distance \<Rightarrow> nat \<Rightarrow> nat list \<Rightarrow> build_state \<Rightarrow> error + build_state"
where
  "inner_loop location gd i [] s = Inr s"
| "inner_loop location gd i (j # js) s =
     (case gd (location ! i) (location ! j) of
        None \<Rightarrow> Inl (LookupFailed i j)
      | Some d \<Rightarrow>
          inner_loop location gd i js
            (s\<lparr>cost := set_entry (cost s) i j (real_of_int d / 3600),
               calls := calls s @ [(i, j)]\<rparr>))"

fun outer_loop ::
  "'loc list \<Rightarrow> 'loc get_distance \<Rightarrow> nat list \<Rightarrow> nat list \<Rightarrow> build_state \<Rightarrow> error + build_state"
where
  "outer_loop location gd [] js s = Inr s"
| "outer_loop location gd (i # is) js s =
     (case inner_loop location gd i js s of
        Inl e \<Rightarrow> Inl e
      | Inr s' \<Rightarrow> outer_loop location gd is js s')"

definition build_cost :: "'loc list \<Rightarrow> 'loc get_distance \<Rightarrow> error + build_state" where
  "build_cost location gd =
     (let n = length location
      in outer_loop location gd [0..<n] [0..<n] \<lparr>cost = zeros n, calls = []\<rparr>)"

subsection \<open>Variables and constraints (cells 31 to 41)\<close>

datatype varid = X "nat \<times> nat" | U nat

text \<open>A linear expression is a list of terms, coefficient times variable.\<close>

type_synonym linexpr = "(real \<times> varid) list"

datatype sense = LE | EQ

record lin_constraint =
  lhs :: linexpr
  csense :: sense
  rhs :: real

text \<open>
  The model: the keys of its binary variables, the keys of its integer variables each with
  its lower bound (docplex leaves the upper bound infinite), the constraints in the order
  they were added, and the expression to minimise.
\<close>

record tsp_model =
  binary_vars :: "(nat \<times> nat) list"
  integer_vars :: "(nat \<times> real) list"
  constraints :: "lin_constraint list"
  objective :: linexpr

text \<open>\<open>Model("tsp")\<close>\<close>

definition empty_model :: tsp_model where
  "empty_model = \<lparr>binary_vars = [], integer_vars = [], constraints = [], objective = []\<rparr>"

text \<open>\<open>lbl = range(len(location))\<close>\<close>

definition lbl :: "nat \<Rightarrow> nat list" where
  "lbl n = [0..<n]"

text \<open>\<open>[(i, j) for i in lbl for j in lbl]\<close>, the keys of the binary variables \<open>x\<close>.\<close>

definition x_keys :: "nat \<Rightarrow> (nat \<times> nat) list" where
  "x_keys n = concat (map (\<lambda>i. map (\<lambda>j. (i, j)) (lbl n)) (lbl n))"

text \<open>\<open>[i for i in lbl]\<close>, the keys of the integer variables \<open>u\<close>, declared with \<open>lb=0\<close>.\<close>

definition u_keys :: "nat \<Rightarrow> nat list" where
  "u_keys n = map (\<lambda>i. i) (lbl n)"

definition u_lb :: real where
  "u_lb = 0"

definition add_variables :: "nat \<Rightarrow> tsp_model \<Rightarrow> tsp_model" where
  "add_variables n m =
     m\<lparr>binary_vars := x_keys n, integer_vars := map (\<lambda>i. (i, u_lb)) (u_keys n)\<rparr>"

text \<open>\<open>model.sum(x[i,j] for j in lbl) == 1\<close> for each \<open>i\<close>, and its transpose.\<close>

definition out_degree :: "nat \<Rightarrow> nat \<Rightarrow> lin_constraint" where
  "out_degree n i = \<lparr>lhs = map (\<lambda>j. (1, X (i, j))) (lbl n), csense = EQ, rhs = 1\<rparr>"

definition in_degree :: "nat \<Rightarrow> nat \<Rightarrow> lin_constraint" where
  "in_degree n j = \<lparr>lhs = map (\<lambda>i. (1, X (i, j))) (lbl n), csense = EQ, rhs = 1\<rparr>"

definition c_1_4 :: "nat \<Rightarrow> lin_constraint list" where
  "c_1_4 n = map (out_degree n) (lbl n)"

definition c_1_5 :: "nat \<Rightarrow> lin_constraint list" where
  "c_1_5 n = map (in_degree n) (lbl n)"

text \<open>\<open>[a for a in A if a!=i]\<close>\<close>

definition exclude :: "nat list \<Rightarrow> nat \<Rightarrow> nat list" where
  "exclude A i = filter (\<lambda>a. a \<noteq> i) A"

text \<open>\<open>u[i]-u[j]+n*x[i,j] <= n-1\<close>; \<open>n\<close> is a Python integer, so \<open>n-1\<close> is \<open>-1\<close> at 0.\<close>

definition mtz :: "nat \<Rightarrow> nat \<Rightarrow> nat \<Rightarrow> lin_constraint" where
  "mtz n i j =
     \<lparr>lhs = [(1, U i), (- 1, U j), (real n, X (i, j))], csense = LE, rhs = real n - 1\<rparr>"

definition c_1_13 :: "nat \<Rightarrow> lin_constraint list" where
  "c_1_13 n =
     concat (map (\<lambda>i. map (\<lambda>j. mtz n i j) (filter (\<lambda>k. k \<noteq> i) (exclude (lbl n) 0)))
                 (exclude (lbl n) 0))"

text \<open>\<open>u[i] <= n-1\<close> for each \<open>i\<close> in \<open>lbl\<close>\<close>

definition rank_bound :: "nat \<Rightarrow> nat \<Rightarrow> lin_constraint" where
  "rank_bound n i = \<lparr>lhs = [(1, U i)], csense = LE, rhs = real n - 1\<rparr>"

definition c_1_14 :: "nat \<Rightarrow> lin_constraint list" where
  "c_1_14 n = map (rank_bound n) (lbl n)"

definition add_constraints :: "nat \<Rightarrow> tsp_model \<Rightarrow> tsp_model" where
  "add_constraints n m =
     m\<lparr>constraints := constraints m @ c_1_4 n @ c_1_5 n @ c_1_13 n @ c_1_14 n\<rparr>"

subsection \<open>Objective (cells 45 and 47)\<close>

text \<open>\<open>for i in range(n): cost[i,i]=1e+12\<close>\<close>

definition sentinel :: real where
  "sentinel = 1000000000000"

fun set_diagonal :: "nat list \<Rightarrow> matrix \<Rightarrow> matrix" where
  "set_diagonal [] c = c"
| "set_diagonal (i # is) c = set_diagonal is (set_entry c i i sentinel)"

definition overwrite_diagonal :: "nat \<Rightarrow> matrix \<Rightarrow> matrix" where
  "overwrite_diagonal n c = set_diagonal [0..<n] c"

text \<open>\<open>cost.flatten()\<close>: the rows one after the other, in a new array.\<close>

definition flatten :: "matrix \<Rightarrow> real list" where
  "flatten c = concat c"

text \<open>\<open>model.dot(vars, coefs)\<close>: the sum of the products, position by position.\<close>

definition dot :: "varid list \<Rightarrow> real list \<Rightarrow> linexpr" where
  "dot vs cs = map (\<lambda>(v, c). (c, v)) (zip vs cs)"

text \<open>\<open>model.dot([x[k] for k in sorted(x.keys())], cost.flatten())\<close>\<close>

definition loss :: "nat \<Rightarrow> matrix \<Rightarrow> linexpr" where
  "loss n c = dot (map X (sort (x_keys n))) (flatten c)"

text \<open>\<open>model.minimize(loss)\<close>\<close>

definition minimize :: "linexpr \<Rightarrow> tsp_model \<Rightarrow> tsp_model" where
  "minimize e m = m\<lparr>objective := e\<rparr>"

text \<open>The model after cell 49, for \<open>n\<close> locations and the cost matrix \<open>c\<close> of cell 45.\<close>

definition build_model :: "nat \<Rightarrow> matrix \<Rightarrow> tsp_model" where
  "build_model n c = minimize (loss n c) (add_constraints n (add_variables n empty_model))"

subsection \<open>What the model means\<close>

text \<open>
  An assignment gives every variable a value. It is feasible when the binary variables are
  0 or 1, the integer variables are integers not below their lower bound, and every
  constraint holds. The solver minimises the objective over the feasible assignments.
\<close>

type_synonym assignment = "varid \<Rightarrow> real"

definition eval_expr :: "assignment \<Rightarrow> linexpr \<Rightarrow> real" where
  "eval_expr a e = sum_list (map (\<lambda>(c, v). c * a v) e)"

definition holds :: "assignment \<Rightarrow> lin_constraint \<Rightarrow> bool" where
  "holds a c =
     (case csense c of
        LE \<Rightarrow> eval_expr a (lhs c) \<le> rhs c
      | EQ \<Rightarrow> eval_expr a (lhs c) = rhs c)"

definition feasible :: "tsp_model \<Rightarrow> assignment \<Rightarrow> bool" where
  "feasible m a \<longleftrightarrow>
     list_all (\<lambda>k. a (X k) = 0 \<or> a (X k) = 1) (binary_vars m) \<and>
     list_all (\<lambda>(i, l). a (U i) \<in> \<int> \<and> l \<le> a (U i)) (integer_vars m) \<and>
     list_all (holds a) (constraints m)"

definition optimal :: "tsp_model \<Rightarrow> assignment \<Rightarrow> bool" where
  "optimal m a \<longleftrightarrow>
     feasible m a \<and>
     (\<forall>b. feasible m b \<longrightarrow> eval_expr a (objective m) \<le> eval_expr b (objective m))"

subsection \<open>Edges of the solution (cells 61 and 63)\<close>

text \<open>
  After the solve each variable of the dictionary \<open>x\<close> carries its \<open>solution_value\<close>.
  \<open>get_edges\<close> keeps the keys whose value is equal to 1.
\<close>

record var =
  solution_value :: real

type_synonym var_dict = "((nat \<times> nat) \<times> var) list"

definition solved_x :: "nat \<Rightarrow> assignment \<Rightarrow> var_dict" where
  "solved_x n a = map (\<lambda>k. (k, \<lparr>solution_value = a (X k)\<rparr>)) (x_keys n)"

definition get_edges :: "var_dict \<Rightarrow> (nat \<times> nat) list" where
  "get_edges x = map fst (filter (\<lambda>(k, v). solution_value v = 1) x)"

text \<open>
  \<open>nx.DiGraph()\<close> and \<open>add_edges_from\<close>: each edge is added with its two end nodes, a
  node or an edge that is already there is not added again.
\<close>

record digraph =
  nodes :: "nat list"
  edges :: "(nat \<times> nat) list"

definition empty_graph :: digraph where
  "empty_graph = \<lparr>nodes = [], edges = []\<rparr>"

definition add_node :: "nat \<Rightarrow> digraph \<Rightarrow> digraph" where
  "add_node v g = (if v \<in> set (nodes g) then g else g\<lparr>nodes := nodes g @ [v]\<rparr>)"

definition add_edge :: "nat \<times> nat \<Rightarrow> digraph \<Rightarrow> digraph" where
  "add_edge e g =
     (let g' = add_node (snd e) (add_node (fst e) g)
      in if e \<in> set (edges g') then g' else g'\<lparr>edges := edges g' @ [e]\<rparr>)"

definition add_edges_from :: "(nat \<times> nat) list \<Rightarrow> digraph \<Rightarrow> digraph" where
  "add_edges_from es g = fold add_edge es g"

subsection \<open>The notebook from cell 14 to cell 63\<close>

text \<open>
  The global variables of the notebook that the cells read and write. The solver is a
  parameter: it returns an assignment of the variables or nothing. Reading
  \<open>solution_value\<close> of a model that has no solution raises in docplex.
\<close>

record notebook =
  nb_cost :: matrix
  nb_calls :: "(nat \<times> nat) list"
  nb_model :: tsp_model
  nb_solution :: "assignment option"
  nb_G :: digraph

type_synonym solver = "tsp_model \<Rightarrow> assignment option"

definition cells_29_to_41 :: "nat \<Rightarrow> build_state \<Rightarrow> notebook" where
  "cells_29_to_41 n s =
     \<lparr>nb_cost = cost s, nb_calls = calls s,
      nb_model = add_constraints n (add_variables n empty_model),
      nb_solution = None, nb_G = empty_graph\<rparr>"

definition cell_45 :: "nat \<Rightarrow> notebook \<Rightarrow> notebook" where
  "cell_45 n nb = nb\<lparr>nb_cost := overwrite_diagonal n (nb_cost nb)\<rparr>"

definition cells_47_to_49 :: "nat \<Rightarrow> notebook \<Rightarrow> notebook" where
  "cells_47_to_49 n nb = nb\<lparr>nb_model := minimize (loss n (nb_cost nb)) (nb_model nb)\<rparr>"

definition cell_51 :: "solver \<Rightarrow> notebook \<Rightarrow> notebook" where
  "cell_51 solve nb = nb\<lparr>nb_solution := solve (nb_model nb)\<rparr>"

definition cells_61_to_63 :: "nat \<Rightarrow> notebook \<Rightarrow> error + notebook" where
  "cells_61_to_63 n nb =
     (case nb_solution nb of
        None \<Rightarrow> Inl NoSolution
      | Some a \<Rightarrow> Inr (nb\<lparr>nb_G := add_edges_from (get_edges (solved_x n a)) empty_graph\<rparr>))"

text \<open>The cells up to the complete model, before the solver is called.\<close>

definition assemble :: "'loc list \<Rightarrow> 'loc get_distance \<Rightarrow> error + notebook" where
  "assemble location gd =
     (let n = length location
      in case build_cost location gd of
           Inl e \<Rightarrow> Inl e
         | Inr s \<Rightarrow> Inr (cells_47_to_49 n (cell_45 n (cells_29_to_41 n s))))"

definition run :: "'loc list \<Rightarrow> 'loc get_distance \<Rightarrow> solver \<Rightarrow> error + notebook" where
  "run location gd solve =
     (case assemble location gd of
        Inl e \<Rightarrow> Inl e
      | Inr nb \<Rightarrow> cells_61_to_63 (length location) (cell_51 solve nb))"

subsection \<open>Cycles, tours and two particular assignments\<close>

text \<open>
  The arcs of the closed walk through the nodes \<open>vs\<close>: each node to the next one and the
  last one back to the first. A single node gives its self-arc.
\<close>

definition cycle_arcs :: "nat list \<Rightarrow> (nat \<times> nat) list" where
  "cycle_arcs vs = zip vs (rotate1 vs)"

definition selects :: "assignment \<Rightarrow> (nat \<times> nat) list \<Rightarrow> bool" where
  "selects a es = list_all (\<lambda>e. a (X e) = 1) es"

definition avoids_node_0 :: "nat \<Rightarrow> nat list \<Rightarrow> bool" where
  "avoids_node_0 n vs = list_all (\<lambda>v. 1 \<le> v \<and> v < n) vs"

text \<open>A Hamiltonian cycle on the nodes \<open>0..<n\<close>, written as the visiting order from node 0.\<close>

definition hamiltonian :: "nat \<Rightarrow> nat list \<Rightarrow> bool" where
  "hamiltonian n tour \<longleftrightarrow> tour \<noteq> [] \<and> hd tour = 0 \<and> distinct tour \<and> set tour = set [0..<n]"

definition index_of :: "nat list \<Rightarrow> nat \<Rightarrow> nat" where
  "index_of xs a = length (takeWhile (\<lambda>b. b \<noteq> a) xs)"

text \<open>The assignment of a tour: its arcs are selected, the rank of a node is its position.\<close>

definition tour_assignment :: "nat list \<Rightarrow> assignment" where
  "tour_assignment tour v =
     (case v of
        X e \<Rightarrow> if e \<in> set (cycle_arcs tour) then 1 else 0
      | U i \<Rightarrow> real (index_of tour i))"

text \<open>Every node keeps to itself: all self-arcs selected, all ranks 0.\<close>

definition self_loops :: assignment where
  "self_loops v = (case v of X (i, j) \<Rightarrow> if i = j then 1 else 0 | U i \<Rightarrow> 0)"

text \<open>
  The solution printed by the notebook for its five locations: the tour 0, 3, 2, 1, 4 with
  the ranks \<open>u_1=2\<close>, \<open>u_2=1\<close>, \<open>u_4=3\<close>; a variable that is not printed is 0.
\<close>

definition printed_solution :: assignment where
  "printed_solution v =
     (case v of
        X e \<Rightarrow> if e \<in> set [(0, 3), (1, 4), (2, 1), (3, 2), (4, 0)] then 1 else 0
      | U i \<Rightarrow> if i = 1 then 2 else if i = 2 then 1 else if i = 4 then 3 else 0)"

text \<open>
  For comparison, the objective in the words of the specification: the sum of
  \<open>M[i][j]*x[i,j]\<close> over the ordered pairs with \<open>i \<noteq> j\<close> only.
\<close>

definition objective_off_diagonal :: "nat \<Rightarrow> matrix \<Rightarrow> linexpr" where
  "objective_off_diagonal n c =
     map (\<lambda>(i, j). (c ! i ! j, X (i, j))) (filter (\<lambda>(i, j). i \<noteq> j) (x_keys n))"

text \<open>
  Two assignments a solver could hand back that are not tours: one with a fractional
  value, one in which node 0 has two successors.
\<close>

definition fractional_solution :: assignment where
  "fractional_solution v =
     (case v of X e \<Rightarrow> if e = (0, 1) then 3 / 4 else if e = (1, 0) then 1 else 0 | U i \<Rightarrow> 0)"

definition malformed_solution :: assignment where
  "malformed_solution v =
     (case v of X e \<Rightarrow> if e = (0, 1) \<or> e = (0, 2) then 1 else 0 | U i \<Rightarrow> 0)"

text \<open>An \<open>n\<close> by \<open>n\<close> matrix.\<close>

definition square :: "nat \<Rightarrow> matrix \<Rightarrow> bool" where
  "square n c \<longleftrightarrow> length c = n \<and> list_all (\<lambda>r. length r = n) c"

subsection \<open>Reading the constraints\<close>

lemma set_lbl: "set (lbl n) = {0..<n}"
  by (simp add: lbl_def)

lemma set_exclude_lbl: "set (exclude (lbl n) 0) = {1..<n}"
  by (auto simp: exclude_def lbl_def)

lemma set_x_keys: "set (x_keys n) = {0..<n} \<times> {0..<n}"
  by (auto simp: x_keys_def lbl_def)

lemma eval_unit_terms:
  "eval_expr a (map (\<lambda>k. (1, f k)) ks) = sum_list (map (\<lambda>k. a (f k)) ks)"
  by (simp add: eval_expr_def comp_def)

lemma holds_out_degree:
  "holds a (out_degree n i) \<longleftrightarrow> (\<Sum>j = 0..<n. a (X (i, j))) = 1"
  by (simp add: holds_def out_degree_def eval_unit_terms lbl_def interv_sum_list_conv_sum_set_nat)

lemma holds_in_degree:
  "holds a (in_degree n j) \<longleftrightarrow> (\<Sum>i = 0..<n. a (X (i, j))) = 1"
  by (simp add: holds_def in_degree_def eval_unit_terms lbl_def interv_sum_list_conv_sum_set_nat)

lemma holds_mtz:
  "holds a (mtz n i j) \<longleftrightarrow> a (U i) - a (U j) + real n * a (X (i, j)) \<le> real n - 1"
  by (simp add: holds_def mtz_def eval_expr_def algebra_simps)

lemma holds_rank_bound:
  "holds a (rank_bound n i) \<longleftrightarrow> a (U i) \<le> real n - 1"
  by (simp add: holds_def rank_bound_def eval_expr_def)

lemma set_c_1_13:
  "set (c_1_13 n) = {mtz n i j | i j. 1 \<le> i \<and> i < n \<and> 1 \<le> j \<and> j < n \<and> i \<noteq> j}"
  unfolding c_1_13_def by (fastforce simp: set_exclude_lbl)

lemma constraints_build_model:
  "constraints (build_model n c) = c_1_4 n @ c_1_5 n @ c_1_13 n @ c_1_14 n"
  by (simp add: build_model_def minimize_def add_constraints_def add_variables_def empty_model_def)

lemma binary_vars_build_model: "binary_vars (build_model n c) = x_keys n"
  by (simp add: build_model_def minimize_def add_constraints_def add_variables_def)

lemma integer_vars_build_model:
  "integer_vars (build_model n c) = map (\<lambda>i. (i, 0)) [0..<n]"
  by (simp add: build_model_def minimize_def add_constraints_def add_variables_def
      u_keys_def u_lb_def lbl_def)

lemma objective_build_model: "objective (build_model n c) = loss n c"
  by (simp add: build_model_def minimize_def)

lemma all_c_1_13:
  "list_all (holds a) (c_1_13 n) \<longleftrightarrow>
     (\<forall>i j. 1 \<le> i \<and> i < n \<and> 1 \<le> j \<and> j < n \<and> i \<noteq> j \<longrightarrow>
        a (U i) - a (U j) + real n * a (X (i, j)) \<le> real n - 1)"
  unfolding c_1_13_def list_all_iff by (auto simp: set_exclude_lbl holds_mtz)

lemma feasible_iff:
  "feasible (build_model n c) a \<longleftrightarrow>
     (\<forall>i < n. \<forall>j < n. a (X (i, j)) = 0 \<or> a (X (i, j)) = 1) \<and>
     (\<forall>i < n. a (U i) \<in> \<int> \<and> 0 \<le> a (U i) \<and> a (U i) \<le> real n - 1) \<and>
     (\<forall>i < n. (\<Sum>j = 0..<n. a (X (i, j))) = 1) \<and>
     (\<forall>j < n. (\<Sum>i = 0..<n. a (X (i, j))) = 1) \<and>
     (\<forall>i j. 1 \<le> i \<and> i < n \<and> 1 \<le> j \<and> j < n \<and> i \<noteq> j \<longrightarrow>
        a (U i) - a (U j) + real n * a (X (i, j)) \<le> real n - 1)"
  unfolding feasible_def constraints_build_model binary_vars_build_model integer_vars_build_model
  apply (simp add: all_c_1_13)
  apply (simp add: list_all_iff set_x_keys c_1_4_def c_1_5_def c_1_14_def set_lbl
      holds_out_degree holds_in_degree holds_rank_bound)
  by (simp add: Ball_def) blast

lemma constraint_count_5: "length (constraints (build_model 5 c)) = 27"
  by (simp add: constraints_build_model c_1_4_def c_1_5_def c_1_13_def c_1_14_def lbl_def
      exclude_def upt_rec)

lemma feasible_self_loops: "feasible (build_model n c) self_loops"
  by (simp add: feasible_iff self_loops_def)

subsection \<open>Ranks along a closed walk\<close>

lemma sum_list_diff_zip:
  fixes f :: "'a \<Rightarrow> real"
  shows "length xs = length ys \<Longrightarrow>
   sum_list (map (\<lambda>e. f (snd e) - f (fst e)) (zip xs ys)) =
   sum_list (map f ys) - sum_list (map f xs)"
  by (induction xs ys rule: list_induct2) simp_all

lemma sum_list_rotate1:
  fixes f :: "'a \<Rightarrow> real"
  shows "sum_list (map f (rotate1 xs)) = sum_list (map f xs)"
  by (cases xs) simp_all

lemma cycle_rank_sum:
  fixes f :: "nat \<Rightarrow> real"
  shows "sum_list (map (\<lambda>e. f (snd e) - f (fst e)) (cycle_arcs vs)) = 0"
  unfolding cycle_arcs_def by (simp add: sum_list_diff_zip sum_list_rotate1)

lemma cycle_arcs_nodes: "e \<in> set (cycle_arcs vs) \<Longrightarrow> fst e \<in> set vs \<and> snd e \<in> set vs"
  unfolding cycle_arcs_def by (metis in_set_zipE prod.collapse set_rotate1)

lemma mtz_step:
  assumes "feasible (build_model n c) a" "1 \<le> i" "i < n" "1 \<le> j" "j < n" "a (X (i, j)) = 1"
  shows "(if i \<noteq> j then 1 else 0) \<le> a (U j) - a (U i)"
proof (cases "i = j")
  case True then show ?thesis by simp
next
  case False
  with assms have "a (U i) - a (U j) + real n * a (X (i, j)) \<le> real n - 1"
    unfolding feasible_iff by blast
  with assms(6) False show ?thesis by simp
qed

lemma sum_list_ge_one:
  fixes g :: "'a \<Rightarrow> real"
  assumes "\<forall>e \<in> set es. 0 \<le> g e" "x \<in> set es" "1 \<le> g x"
  shows "1 \<le> sum_list (map g es)"
proof -
  from assms(2) obtain as bs where es: "es = as @ x # bs" by (auto simp: in_set_conv_decomp)
  have "0 \<le> sum_list (map g as)" "0 \<le> sum_list (map g bs)"
    using assms(1) es by (auto intro!: sum_list_nonneg)
  with assms(3) show ?thesis by (simp add: es)
qed

lemma no_subtour:
  assumes feas: "feasible (build_model n c) a"
    and av: "avoids_node_0 n vs"
    and sel: "selects a (cycle_arcs vs)"
    and proper: "\<exists>e \<in> set (cycle_arcs vs). fst e \<noteq> snd e"
  shows False
proof -
  let ?g = "\<lambda>e. a (U (snd e)) - a (U (fst e))"
  have step: "(if fst e \<noteq> snd e then 1 else 0) \<le> ?g e" if "e \<in> set (cycle_arcs vs)" for e
  proof -
    from that cycle_arcs_nodes have "fst e \<in> set vs" "snd e \<in> set vs" by blast+
    with av have "1 \<le> fst e" "fst e < n" "1 \<le> snd e" "snd e < n"
      by (auto simp: avoids_node_0_def list_all_iff)
    moreover from sel that have "a (X (fst e, snd e)) = 1"
      by (auto simp: selects_def list_all_iff)
    ultimately show ?thesis using mtz_step [OF feas] by blast
  qed
  from proper obtain x where x: "x \<in> set (cycle_arcs vs)" "fst x \<noteq> snd x" by blast
  have nonneg: "\<forall>e \<in> set (cycle_arcs vs). 0 \<le> ?g e"
  proof
    fix e assume "e \<in> set (cycle_arcs vs)"
    from step [OF this] show "0 \<le> ?g e" by (simp split: if_splits)
  qed
  from step [OF x(1)] x(2) have "1 \<le> ?g x" by simp
  with nonneg x(1) have "1 \<le> sum_list (map ?g (cycle_arcs vs))" by (rule sum_list_ge_one)
  then show False using cycle_rank_sum [of "\<lambda>v. a (U v)" vs] by simp
qed

subsection \<open>The assignment of a tour is feasible\<close>

lemma index_of_nth: "distinct xs \<Longrightarrow> k < length xs \<Longrightarrow> index_of xs (xs ! k) = k"
  unfolding index_of_def
  by (subst takeWhile_eq_take_P_nth [where n = k]) (auto simp: nth_eq_iff_index_eq)

lemma hamiltonian_length: "hamiltonian n tour \<Longrightarrow> length tour = n"
  unfolding hamiltonian_def by (metis distinct_card card_atLeastLessThan diff_zero set_upt)

lemma hamiltonian_parts:
  assumes "hamiltonian n tour"
  shows "distinct tour" "set tour = {0..<n}" "hd tour = 0" "tour \<noteq> []"
  using assms by (auto simp: hamiltonian_def)

lemma cycle_arcs_iff:
  "(i, j) \<in> set (cycle_arcs vs) \<longleftrightarrow>
     (\<exists>k < length vs. vs ! k = i \<and> vs ! (Suc k mod length vs) = j)"
  unfolding cycle_arcs_def by (auto simp: in_set_zip nth_rotate1)

lemma indicator_sum_one:
  fixes P :: "nat \<Rightarrow> bool"
  assumes "c < n" "\<And>j. j < n \<Longrightarrow> P j \<longleftrightarrow> j = c"
  shows "(\<Sum>j = 0..<n. if P j then 1 else 0) = (1::real)"
proof -
  have "(\<Sum>j = 0..<n. if P j then 1 else 0) = (\<Sum>j = 0..<n. if j = c then 1 else (0::real))"
    by (rule sum.cong) (auto simp: assms(2))
  also have "\<dots> = 1" using assms(1) by simp
  finally show ?thesis .
qed

lemma tour_node_position:
  assumes "hamiltonian n tour" "i < n"
  obtains k where "k < n" "tour ! k = i"
  using assms hamiltonian_length [OF assms(1)] hamiltonian_parts(2) [OF assms(1)]
  by (metis atLeastLessThan_iff in_set_conv_nth zero_le)

lemma tour_out_degree:
  assumes h: "hamiltonian n tour" and i: "i < n"
  shows "(\<Sum>j = 0..<n. tour_assignment tour (X (i, j))) = 1"
proof -
  note len = hamiltonian_length [OF h] and d = hamiltonian_parts(1) [OF h]
    and s = hamiltonian_parts(2) [OF h]
  from h i obtain k where k: "k < n" "tour ! k = i" by (rule tour_node_position)
  let ?c = "tour ! (Suc k mod n)"
  have "?c \<in> set tour" using k(1) len by (metis mod_less_divisor nth_mem less_nat_zero_code neq0_conv)
  then have c: "?c < n" using s by simp
  have "(i, j) \<in> set (cycle_arcs tour) \<longleftrightarrow> j = ?c" for j
    using k d len by (auto simp: cycle_arcs_iff nth_eq_iff_index_eq)
  then show ?thesis
    unfolding tour_assignment_def using c by (simp add: indicator_sum_one [where c = ?c])
qed

lemma tour_in_degree:
  assumes h: "hamiltonian n tour" and j: "j < n"
  shows "(\<Sum>i = 0..<n. tour_assignment tour (X (i, j))) = 1"
proof -
  note len = hamiltonian_length [OF h] and d = hamiltonian_parts(1) [OF h]
    and s = hamiltonian_parts(2) [OF h]
  have dr: "distinct (rotate1 tour)" using d by simp
  from j s have "j \<in> set (rotate1 tour)" by simp
  then obtain k where k: "k < n" "rotate1 tour ! k = j"
    by (metis in_set_conv_nth len length_rotate1)
  let ?c = "tour ! k"
  have c: "?c < n" using k(1) len s by (metis atLeastLessThan_iff nth_mem)
  have "(i, j) \<in> set (cycle_arcs tour) \<longleftrightarrow> i = ?c" for i
    unfolding cycle_arcs_def using k dr len
    by (auto simp: in_set_zip nth_eq_iff_index_eq)
  then show ?thesis
    unfolding tour_assignment_def using c by (simp add: indicator_sum_one [where c = ?c])
qed

lemma tour_rank:
  assumes h: "hamiltonian n tour" and k: "k < n"
  shows "tour_assignment tour (U (tour ! k)) = real k"
  using index_of_nth [OF hamiltonian_parts(1) [OF h]] k hamiltonian_length [OF h]
  by (simp add: tour_assignment_def)

lemma tour_mtz:
  assumes h: "hamiltonian n tour" and ij: "1 \<le> i" "i < n" "1 \<le> j" "j < n" "i \<noteq> j"
  shows "tour_assignment tour (U i) - tour_assignment tour (U j)
           + real n * tour_assignment tour (X (i, j)) \<le> real n - 1"
proof -
  note len = hamiltonian_length [OF h] and d = hamiltonian_parts(1) [OF h]
    and hd0 = hamiltonian_parts(3) [OF h] and ne = hamiltonian_parts(4) [OF h]
  from h ij(2) obtain k where k: "k < n" "tour ! k = i" by (rule tour_node_position)
  from h ij(4) obtain l where l: "l < n" "tour ! l = j" by (rule tour_node_position)
  have t0: "tour ! 0 = 0" using hd0 ne by (simp add: hd_conv_nth)
  have l0: "l \<noteq> 0"
  proof
    assume "l = 0"
    with l(2) t0 have "j = 0" by simp
    with ij(3) show False by simp
  qed
  have ui: "index_of tour i = k" using index_of_nth [OF d] k len by auto
  have uj: "index_of tour j = l" using index_of_nth [OF d] l len by auto
  show ?thesis
  proof (cases "(i, j) \<in> set (cycle_arcs tour)")
    case True
    then obtain k' where k': "k' < n" "tour ! k' = i" "tour ! (Suc k' mod n) = j"
      by (auto simp: cycle_arcs_iff len)
    have "k' = k" using k k'(1,2) d len by (metis nth_eq_iff_index_eq)
    have "Suc k mod n < n" using k(1) by simp
    then have "Suc k mod n = l" using k'(3) l d len \<open>k' = k\<close> by (metis nth_eq_iff_index_eq)
    with l0 k(1) have "l = Suc k" by (metis Suc_lessI mod_less mod_self)
    with True show ?thesis by (simp add: tour_assignment_def ui uj)
  next
    case False
    have "real k - real l \<le> real n - 2" using k(1) l0 by simp
    with False show ?thesis by (simp add: tour_assignment_def ui uj)
  qed
qed

lemma tour_feasible:
  assumes h: "hamiltonian n tour"
  shows "feasible (build_model n c) (tour_assignment tour)"
  unfolding feasible_iff
proof (intro conjI allI impI)
  fix i assume "i < n"
  with h obtain k where k: "k < n" "tour ! k = i" by (rule tour_node_position)
  with tour_rank [OF h k(1)] show "tour_assignment tour (U i) \<le> real n - 1"
    by simp
qed (use h in \<open>simp_all add: tour_out_degree tour_in_degree tour_mtz\<close>, simp_all add: tour_assignment_def)

subsection \<open>The printed solution is feasible\<close>

lemma all_less_5: "(\<forall>i<5. P i) \<longleftrightarrow> P (0::nat) \<and> P 1 \<and> P 2 \<and> P 3 \<and> P 4"
proof -
  have "i < 5 \<longleftrightarrow> i = 0 \<or> i = 1 \<or> i = 2 \<or> i = 3 \<or> i = 4" for i :: nat by arith
  then show ?thesis by auto
qed

lemma sum_upto_5: "(\<Sum>j = 0..<5. f j) = f (0::nat) + f 1 + f 2 + f 3 + (f 4 :: real)"
  by (simp add: eval_nat_numeral)

lemma feasible_printed_solution: "feasible (build_model 5 c) printed_solution"
  unfolding feasible_iff
  apply (intro conjI)
      apply (simp add: printed_solution_def)
     apply (simp add: printed_solution_def)
    apply (simp add: all_less_5 sum_upto_5 printed_solution_def)
   apply (simp add: all_less_5 sum_upto_5 printed_solution_def)
  apply (auto simp: printed_solution_def)
  done

section \<open>Claim C1: the subtour constraints\<close>

text \<open>
  C1, as stated, fails: the model has the self-arc variables \<open>x[i,i]\<close>, and no constraint
  of \<open>c_1_13\<close> mentions them. With two locations the assignment that selects every
  self-arc is feasible, and its self-arc at node 1 is a cycle that avoids node 0.
\<close>

theorem self_loop_cycle_feasible:
  "feasible (build_model 2 (overwrite_diagonal 2 (zeros 2))) self_loops \<and>
   avoids_node_0 2 [1] \<and> selects self_loops (cycle_arcs [1])"
  by (simp add: feasible_self_loops avoids_node_0_def selects_def cycle_arcs_def self_loops_def)

text \<open>
  C1, amended: for every ordered pair \<open>i \<noteq> j\<close> with both in \<open>[1,n)\<close> the model contains
  the constraint \<open>u[i] - u[j] + n*x[i,j] \<le> n-1\<close>; no feasible assignment selects all arcs
  of a closed walk that avoids node 0 and has an arc between two different nodes (so no
  cycle of two or more nodes avoiding node 0); and every Hamiltonian cycle through the
  \<open>n\<close> nodes is the set of selected arcs of a feasible assignment. Self-arcs at the nodes
  from 1 on are not excluded by these constraints.
\<close>

theorem mtz_forbids_proper_subtours:
  "(\<forall>i j. 1 \<le> i \<and> i < n \<and> 1 \<le> j \<and> j < n \<and> i \<noteq> j \<longrightarrow>
      mtz n i j \<in> set (constraints (build_model n c))) \<and>
   (\<forall>a vs. feasible (build_model n c) a \<and> avoids_node_0 n vs \<and>
      (\<exists>e \<in> set (cycle_arcs vs). fst e \<noteq> snd e) \<longrightarrow> \<not> selects a (cycle_arcs vs)) \<and>
   (\<forall>tour. hamiltonian n tour \<longrightarrow>
      (\<exists>a. feasible (build_model n c) a \<and>
           (\<forall>e \<in> set (x_keys n). a (X e) = 1 \<longleftrightarrow> e \<in> set (cycle_arcs tour))))"
proof (intro conjI allI impI)
  fix i j assume "1 \<le> i \<and> i < n \<and> 1 \<le> j \<and> j < n \<and> i \<noteq> j"
  then show "mtz n i j \<in> set (constraints (build_model n c))"
    unfolding constraints_build_model set_append set_c_1_13 by blast
next
  fix a vs
  assume "feasible (build_model n c) a \<and> avoids_node_0 n vs \<and>
    (\<exists>e \<in> set (cycle_arcs vs). fst e \<noteq> snd e)"
  then show "\<not> selects a (cycle_arcs vs)" using no_subtour by blast
next
  fix tour assume h: "hamiltonian n tour"
  have "\<forall>e \<in> set (x_keys n). tour_assignment tour (X e) = 1 \<longleftrightarrow> e \<in> set (cycle_arcs tour)"
    by (simp add: tour_assignment_def)
  with tour_feasible [OF h]
  show "\<exists>a. feasible (build_model n c) a \<and>
           (\<forall>e \<in> set (x_keys n). a (X e) = 1 \<longleftrightarrow> e \<in> set (cycle_arcs tour))"
    by blast
qed

text \<open>Two tours on three nodes, for the witness below.\<close>

lemma hamiltonian_021: "hamiltonian 3 [0, 2, 1]"
  by (auto simp: hamiltonian_def)

lemma hamiltonian_012: "hamiltonian 3 [0, 1, 2]"
  by (auto simp: hamiltonian_def)

text \<open>
  Witness for C1 at three locations: the constraint for the pair (1, 2) is in the model, the
  tour 0, 1, 2 is feasible and therefore does not select the two-cycle on the nodes 1 and 2,
  and the tour 0, 2, 1 has a feasible assignment.
\<close>

theorem mtz_forbids_proper_subtours_witness:
  "mtz 3 1 2 \<in> set (constraints (build_model 3 (overwrite_diagonal 3 (zeros 3)))) \<and>
   feasible (build_model 3 (overwrite_diagonal 3 (zeros 3))) (tour_assignment [0, 1, 2]) \<and>
   avoids_node_0 3 [1, 2] \<and>
   (\<exists>e \<in> set (cycle_arcs [1, 2]). fst e \<noteq> snd e) \<and>
   \<not> selects (tour_assignment [0, 1, 2]) (cycle_arcs [1, 2]) \<and>
   hamiltonian 3 [0, 2, 1] \<and>
   (\<exists>a. feasible (build_model 3 (overwrite_diagonal 3 (zeros 3))) a \<and>
        (\<forall>e \<in> set (x_keys 3). a (X e) = 1 \<longleftrightarrow> e \<in> set (cycle_arcs [0, 2, 1])))"
proof -
  let ?c = "overwrite_diagonal 3 (zeros 3)"
  note main = mtz_forbids_proper_subtours [of 3 ?c]
  have f: "feasible (build_model 3 ?c) (tour_assignment [0, 1, 2])"
    by (rule tour_feasible [OF hamiltonian_012])
  have av: "avoids_node_0 3 [1, 2]" by (simp add: avoids_node_0_def)
  have pr: "\<exists>e \<in> set (cycle_arcs [1, 2]). fst e \<noteq> snd e" by (simp add: cycle_arcs_def)
  from main have "mtz 3 1 2 \<in> set (constraints (build_model 3 ?c))" by simp
  moreover from main f av pr have "\<not> selects (tour_assignment [0, 1, 2]) (cycle_arcs [1, 2])"
    by blast
  moreover from main hamiltonian_021
  have "\<exists>a. feasible (build_model 3 ?c) a \<and>
        (\<forall>e \<in> set (x_keys 3). a (X e) = 1 \<longleftrightarrow> e \<in> set (cycle_arcs [0, 2, 1]))"
    by blast
  ultimately show ?thesis using f av pr hamiltonian_021 by blast
qed

section \<open>Claim C3: the rank variables\<close>

text \<open>
  C3, as stated, fails: \<open>u\<close> is declared over all of \<open>lbl\<close>, so node 0 has a rank
  variable, and the lower bound is the \<open>lb=0\<close> of the declaration. The solution printed
  by the notebook is feasible and gives node 3 the rank 0.
\<close>

theorem rank_zero_for_node_3_is_feasible:
  "0 \<in> fst ` set (integer_vars (build_model 5 (overwrite_diagonal 5 (zeros 5)))) \<and>
   feasible (build_model 5 (overwrite_diagonal 5 (zeros 5))) printed_solution \<and>
   printed_solution (U 3) < 1"
  by (simp add: feasible_printed_solution integer_vars_build_model printed_solution_def upt_rec)

text \<open>
  C3, amended: an integer rank variable \<open>u[i]\<close> is declared for every \<open>i\<close> in \<open>[0,n)\<close>,
  node 0 included, each with lower bound 0; the model contains \<open>u[i] \<le> n-1\<close> for every
  one of them; so every feasible assignment has \<open>0 \<le> u[i] \<le> n-1\<close>.
\<close>

theorem rank_variables_and_bounds:
  "integer_vars (build_model n c) = map (\<lambda>i. (i, 0)) [0..<n] \<and>
   (\<forall>i < n. rank_bound n i \<in> set (constraints (build_model n c))) \<and>
   (\<forall>a. feasible (build_model n c) a \<longrightarrow> (\<forall>i < n. 0 \<le> a (U i) \<and> a (U i) \<le> real n - 1))"
proof (intro conjI allI impI)
  show "integer_vars (build_model n c) = map (\<lambda>i. (i, 0)) [0..<n]"
    by (rule integer_vars_build_model)
next
  fix i assume "i < n"
  then show "rank_bound n i \<in> set (constraints (build_model n c))"
    by (simp add: constraints_build_model c_1_14_def set_lbl)
next
  fix a i assume "feasible (build_model n c) a" "i < n"
  then show "0 \<le> a (U i)" "a (U i) \<le> real n - 1" by (simp_all add: feasible_iff)
qed

text \<open>Witness for C3: the five locations of the notebook and its printed solution.\<close>

theorem rank_variables_and_bounds_witness:
  "integer_vars (build_model 5 (overwrite_diagonal 5 (zeros 5))) =
     [(0, 0), (1, 0), (2, 0), (3, 0), (4, 0)] \<and>
   rank_bound 5 0 \<in> set (constraints (build_model 5 (overwrite_diagonal 5 (zeros 5)))) \<and>
   feasible (build_model 5 (overwrite_diagonal 5 (zeros 5))) printed_solution \<and>
   0 \<le> printed_solution (U 3) \<and> printed_solution (U 3) \<le> 4"
proof -
  let ?c = "overwrite_diagonal 5 (zeros 5)"
  note main = rank_variables_and_bounds [of 5 ?c]
  have f: "feasible (build_model 5 ?c) printed_solution" by (rule feasible_printed_solution)
  from main have "integer_vars (build_model 5 ?c) = map (\<lambda>i. (i, 0)) [0..<5]" by blast
  then have "integer_vars (build_model 5 ?c) = [(0, 0), (1, 0), (2, 0), (3, 0), (4, 0)]"
    by (simp add: upt_rec)
  moreover from main have "rank_bound 5 0 \<in> set (constraints (build_model 5 ?c))" by simp
  moreover from main f have "0 \<le> printed_solution (U 3) \<and> printed_solution (U 3) \<le> real 5 - 1"
    by simp
  ultimately show ?thesis using f by simp
qed

section \<open>The cost matrix\<close>

lemma square_zeros: "square n (zeros n)"
  by (simp add: square_def zeros_def list_all_iff)

lemma square_row: "square n c \<Longrightarrow> r < n \<Longrightarrow> length (c ! r) = n"
  by (simp add: square_def list_all_length)

lemma square_set_entry:
  assumes "square n c"
  shows "square n (set_entry c i j v)"
proof (cases "i < length c")
  case True
  with assms show ?thesis
    unfolding square_def set_entry_def list_all_length by (auto simp: nth_list_update)
next
  case False
  then have "c[i := (c ! i)[j := v]] = c" by (simp add: list_update_beyond)
  with assms show ?thesis by (simp add: set_entry_def)
qed

lemma set_entry_nth:
  assumes "square n c" "i < n" "j < n" "r < n" "col < n"
  shows "set_entry c i j v ! r ! col = (if r = i \<and> col = j then v else c ! r ! col)"
proof -
  from assms(1) have len: "length c = n" by (simp add: square_def)
  from assms have row: "length (c ! i) = n" by (simp add: square_row)
  show ?thesis using assms(2-5) len row by (simp add: set_entry_def nth_list_update)
qed

lemma inner_loop_isl:
  "isl (inner_loop location gd i js s) \<longleftrightarrow> (\<exists>j \<in> set js. gd (location ! i) (location ! j) = None)"
  by (induction js arbitrary: s) (auto split: option.splits)

lemma inner_loop_Inr:
  assumes "inner_loop location gd i js s = Inr s'" "square n (cost s)" "i < n" "\<forall>j \<in> set js. j < n"
  shows "square n (cost s') \<and> calls s' = calls s @ map (Pair i) js \<and>
    (\<forall>r < n. \<forall>col < n. cost s' ! r ! col =
       (if r = i \<and> col \<in> set js
        then real_of_int (the (gd (location ! i) (location ! col))) / 3600
        else cost s ! r ! col))"
  using assms
proof (induction js arbitrary: s)
  case Nil
  then show ?case by simp
next
  case (Cons j js)
  from Cons.prems(1) obtain d where d: "gd (location ! i) (location ! j) = Some d"
    by (cases "gd (location ! i) (location ! j)") simp_all
  let ?s1 = "s\<lparr>cost := set_entry (cost s) i j (real_of_int d / 3600), calls := calls s @ [(i, j)]\<rparr>"
  from Cons.prems(1) d have run: "inner_loop location gd i js ?s1 = Inr s'" by simp
  have sq1: "square n (cost ?s1)" using Cons.prems(2) by (simp add: square_set_entry)
  from Cons.prems(4) have jn: "j < n" and js: "\<forall>j \<in> set js. j < n" by simp_all
  note IH = Cons.IH [OF run sq1 Cons.prems(3) js]
  have entries: "cost ?s1 ! r ! col = (if r = i \<and> col = j then real_of_int d / 3600 else cost s ! r ! col)"
    if "r < n" "col < n" for r col
    using set_entry_nth [OF Cons.prems(2) Cons.prems(3) jn that] by simp
  show ?case
  proof (intro conjI allI impI)
    show "square n (cost s')" using IH by blast
    show "calls s' = calls s @ map (Pair i) (j # js)" using IH by simp
  next
    fix r col assume rc: "r < n" "col < n"
    with IH have "cost s' ! r ! col =
       (if r = i \<and> col \<in> set js
        then real_of_int (the (gd (location ! i) (location ! col))) / 3600
        else cost ?s1 ! r ! col)" by blast
    with entries [OF rc] d
    show "cost s' ! r ! col =
       (if r = i \<and> col \<in> set (j # js)
        then real_of_int (the (gd (location ! i) (location ! col))) / 3600
        else cost s ! r ! col)" by auto
  qed
qed

lemma outer_loop_isl:
  "isl (outer_loop location gd is js s) \<longleftrightarrow>
     (\<exists>i \<in> set is. \<exists>j \<in> set js. gd (location ! i) (location ! j) = None)"
proof (induction "is" arbitrary: s)
  case Nil
  then show ?case by simp
next
  case (Cons i "is")
  show ?case
  proof (cases "inner_loop location gd i js s")
    case (Inl e)
    then have "isl (inner_loop location gd i js s)" by simp
    then have "\<exists>j \<in> set js. gd (location ! i) (location ! j) = None" by (simp add: inner_loop_isl)
    with Inl show ?thesis by auto
  next
    case (Inr s1)
    then have "\<not> isl (inner_loop location gd i js s)" by simp
    then have "\<not> (\<exists>j \<in> set js. gd (location ! i) (location ! j) = None)" by (simp add: inner_loop_isl)
    with Inr Cons.IH [of s1] show ?thesis by auto
  qed
qed

lemma outer_loop_Inr:
  assumes "outer_loop location gd is js s = Inr s'" "square n (cost s)"
    "\<forall>i \<in> set is. i < n" "\<forall>j \<in> set js. j < n"
  shows "square n (cost s') \<and>
    calls s' = calls s @ concat (map (\<lambda>i. map (Pair i) js) is) \<and>
    (\<forall>r < n. \<forall>col < n. cost s' ! r ! col =
       (if r \<in> set is \<and> col \<in> set js
        then real_of_int (the (gd (location ! r) (location ! col))) / 3600
        else cost s ! r ! col))"
  using assms
proof (induction "is" arbitrary: s)
  case Nil
  then show ?case by simp
next
  case (Cons i "is")
  from Cons.prems(1) obtain s1 where s1: "inner_loop location gd i js s = Inr s1"
    and run: "outer_loop location gd is js s1 = Inr s'"
    by (cases "inner_loop location gd i js s") simp_all
  from Cons.prems(3) have i: "i < n" and "is": "\<forall>i \<in> set is. i < n" by simp_all
  note inner = inner_loop_Inr [OF s1 Cons.prems(2) i Cons.prems(4)]
  from inner have sq1: "square n (cost s1)" by blast
  note IH = Cons.IH [OF run sq1 "is" Cons.prems(4)]
  show ?case
  proof (intro conjI allI impI)
    show "square n (cost s')" using IH by blast
    show "calls s' = calls s @ concat (map (\<lambda>i. map (Pair i) js) (i # is))"
      using IH inner by simp
  next
    fix r col assume rc: "r < n" "col < n"
    from IH rc have a: "cost s' ! r ! col =
       (if r \<in> set is \<and> col \<in> set js
        then real_of_int (the (gd (location ! r) (location ! col))) / 3600
        else cost s1 ! r ! col)" by blast
    from inner rc have b: "cost s1 ! r ! col =
       (if r = i \<and> col \<in> set js
        then real_of_int (the (gd (location ! i) (location ! col))) / 3600
        else cost s ! r ! col)" by blast
    from a b show "cost s' ! r ! col =
       (if r \<in> set (i # is) \<and> col \<in> set js
        then real_of_int (the (gd (location ! r) (location ! col))) / 3600
        else cost s ! r ! col)" by auto
  qed
qed

lemma build_cost_isl:
  "isl (build_cost location gd) \<longleftrightarrow>
     (\<exists>i < length location. \<exists>j < length location. gd (location ! i) (location ! j) = None)"
  by (simp add: build_cost_def Let_def outer_loop_isl Bex_def)

lemma build_cost_Inr:
  assumes "build_cost location gd = Inr s" and n: "n = length location"
  shows "square n (cost s)" "calls s = x_keys n"
    "\<And>i j. i < n \<Longrightarrow> j < n \<Longrightarrow>
       \<exists>d. gd (location ! i) (location ! j) = Some d \<and> cost s ! i ! j = real_of_int d / 3600"
proof -
  from assms have run: "outer_loop location gd [0..<n] [0..<n] \<lparr>cost = zeros n, calls = []\<rparr> = Inr s"
    by (simp add: build_cost_def Let_def)
  have sq: "square n (cost \<lparr>cost = zeros n, calls = []\<rparr>)" by (simp add: square_zeros)
  have rng: "\<forall>i \<in> set [0..<n]. i < n" by simp
  note out = outer_loop_Inr [OF run sq rng rng]
  from out show "square n (cost s)" by blast
  from out show "calls s = x_keys n" by (simp add: x_keys_def lbl_def)
  fix i j assume ij: "i < n" "j < n"
  from assms(1) have "\<not> isl (build_cost location gd)" by simp
  then have "\<not> (\<exists>i < length location. \<exists>j < length location. gd (location ! i) (location ! j) = None)"
    unfolding build_cost_isl .
  with ij n have "gd (location ! i) (location ! j) \<noteq> None" by simp
  then obtain d where d: "gd (location ! i) (location ! j) = Some d" by auto
  from out ij have "cost s ! i ! j = real_of_int (the (gd (location ! i) (location ! j))) / 3600"
    by simp
  with d show "\<exists>d. gd (location ! i) (location ! j) = Some d \<and> cost s ! i ! j = real_of_int d / 3600"
    by simp
qed

lemma set_diagonal_entries:
  assumes "square n c" "\<forall>i \<in> set is. i < n"
  shows "square n (set_diagonal is c) \<and>
    (\<forall>r < n. \<forall>col < n. set_diagonal is c ! r ! col =
       (if r = col \<and> r \<in> set is then sentinel else c ! r ! col))"
  using assms
proof (induction "is" arbitrary: c)
  case Nil
  then show ?case by simp
next
  case (Cons i "is")
  from Cons.prems(2) have i: "i < n" and "is": "\<forall>i \<in> set is. i < n" by simp_all
  have sq1: "square n (set_entry c i i sentinel)" using Cons.prems(1) by (rule square_set_entry)
  note IH = Cons.IH [OF sq1 "is"]
  show ?case
  proof (intro conjI allI impI)
    show "square n (set_diagonal (i # is) c)" using IH by simp
  next
    fix r col assume rc: "r < n" "col < n"
    from IH rc have "set_diagonal is (set_entry c i i sentinel) ! r ! col =
       (if r = col \<and> r \<in> set is then sentinel else set_entry c i i sentinel ! r ! col)" by blast
    with set_entry_nth [OF Cons.prems(1) i i rc]
    show "set_diagonal (i # is) c ! r ! col =
       (if r = col \<and> r \<in> set (i # is) then sentinel else c ! r ! col)" by auto
  qed
qed

lemma square_overwrite_diagonal: "square n c \<Longrightarrow> square n (overwrite_diagonal n c)"
  unfolding overwrite_diagonal_def using set_diagonal_entries [of n c "[0..<n]"] by simp

lemma overwrite_diagonal_nth:
  assumes "square n c" "i < n" "j < n"
  shows "overwrite_diagonal n c ! i ! j = (if i = j then sentinel else c ! i ! j)"
  unfolding overwrite_diagonal_def using set_diagonal_entries [of n c "[0..<n]"] assms by simp

section \<open>The objective\<close>

lemma sorted_pairs:
  "sorted_wrt (<) is \<Longrightarrow> sorted js \<Longrightarrow> sorted (concat (map (\<lambda>i. map (Pair i) js) is))"
  for "is" js :: "nat list"
proof (induction "is")
  case Nil
  then show ?case by simp
next
  case (Cons i "is")
  have "sorted (map (Pair i) js)" using Cons.prems(2) by (simp add: sorted_map)
  then show ?case using Cons by (auto simp: sorted_append)
qed

lemma sort_x_keys: "sort (x_keys n) = x_keys n"
  unfolding x_keys_def lbl_def by (intro sorted_sort_id sorted_pairs) simp_all

lemma square_rows:
  assumes "square n c"
  shows "c = map (\<lambda>i. map (\<lambda>j. c ! i ! j) [0..<n]) [0..<n]"
proof (rule nth_equalityI)
  show "length c = length (map (\<lambda>i. map (\<lambda>j. c ! i ! j) [0..<n]) [0..<n])"
    using assms by (simp add: square_def)
next
  fix i assume "i < length c"
  with assms have i: "i < n" by (simp add: square_def)
  with assms have "length (c ! i) = n" by (rule square_row)
  then have "c ! i = map (\<lambda>j. c ! i ! j) [0..<n]" by (intro nth_equalityI) simp_all
  with i show "c ! i = map (\<lambda>i. map (\<lambda>j. c ! i ! j) [0..<n]) [0..<n] ! i" by simp
qed

lemma flatten_square:
  assumes "square n c"
  shows "flatten c = map (\<lambda>(i, j). c ! i ! j) (x_keys n)"
proof -
  have "flatten c = concat (map (\<lambda>i. map (\<lambda>j. c ! i ! j) [0..<n]) [0..<n])"
    unfolding flatten_def using square_rows [OF assms] by simp
  also have "\<dots> = map (\<lambda>(i, j). c ! i ! j) (x_keys n)"
    by (simp add: x_keys_def lbl_def map_concat comp_def)
  finally show ?thesis .
qed

lemma loss_terms:
  assumes "square n c"
  shows "loss n c = map (\<lambda>(i, j). (c ! i ! j, X (i, j))) (x_keys n)"
  unfolding loss_def dot_def sort_x_keys flatten_square [OF assms]
  by (simp add: zip_map_map zip_same_conv_map comp_def case_prod_beta)

lemma sum_list_concat_real:
  fixes xss :: "real list list"
  shows "sum_list (concat xss) = sum_list (map sum_list xss)"
  by (induction xss) simp_all

lemma eval_loss:
  assumes "square n c"
  shows "eval_expr a (loss n c) = (\<Sum>i = 0..<n. \<Sum>j = 0..<n. c ! i ! j * a (X (i, j)))"
  unfolding loss_terms [OF assms] eval_expr_def x_keys_def lbl_def
  by (simp add: map_concat comp_def sum_list_concat_real interv_sum_list_conv_sum_set_nat)

lemma build_cost_two_locations:
  "build_cost [''A'', ''B''] (\<lambda>a b. Some 7200) =
     Inr \<lparr>cost = [[2, 2], [2, 2]], calls = [(0, 0), (0, 1), (1, 0), (1, 1)]\<rparr>"
  by (simp add: build_cost_def Let_def upt_rec zeros_def set_entry_def numeral_2_eq_2)

section \<open>Claim C4: the terms of the objective\<close>

text \<open>
  C4, as stated, fails: \<open>loss\<close> pairs every key of \<open>x\<close>, the keys \<open>(i,i)\<close> included, with
  the flattened cost matrix. With two locations the self-arc of node 0 is a term of the
  objective with the coefficient \<open>1e12\<close>, and at the assignment that selects the two
  self-arcs the objective is \<open>2e12\<close> while the sum over the pairs \<open>i \<noteq> j\<close> is 0.
\<close>

theorem objective_has_self_arc_terms:
  "(1000000000000, X (0, 0)) \<in>
     set (objective (build_model 2 (overwrite_diagonal 2 [[0, 1], [1, 0]]))) \<and>
   eval_expr self_loops (objective (build_model 2 (overwrite_diagonal 2 [[0, 1], [1, 0]]))) =
     2000000000000 \<and>
   eval_expr self_loops (objective_off_diagonal 2 (overwrite_diagonal 2 [[0, 1], [1, 0]])) = 0"
proof -
  have sq: "square 2 [[0, 1], [1, 0]]" by (simp add: square_def)
  have sq': "square 2 (overwrite_diagonal 2 [[0, 1], [1, 0]])"
    using sq by (rule square_overwrite_diagonal)
  have e: "overwrite_diagonal 2 [[0, 1], [1, 0]] ! i ! j =
      (if i = j then sentinel else [[0, 1], [1, 0]] ! i ! j)" if "i < 2" "j < 2" for i j
    using sq that by (rule overwrite_diagonal_nth)
  have keys: "x_keys 2 = [(0, 0), (0, 1), (1, 0), (1, 1)]"
    by (simp add: x_keys_def lbl_def upt_rec numeral_2_eq_2)
  have terms: "objective (build_model 2 (overwrite_diagonal 2 [[0, 1], [1, 0]])) =
      [(sentinel, X (0, 0)), (1, X (0, 1)), (1, X (1, 0)), (sentinel, X (1, 1))]"
    unfolding objective_build_model loss_terms [OF sq'] keys by (simp add: e)
  have off: "objective_off_diagonal 2 (overwrite_diagonal 2 [[0, 1], [1, 0]]) =
      [(1, X (0, 1)), (1, X (1, 0))]"
    unfolding objective_off_diagonal_def keys by (simp add: e)
  show ?thesis
    unfolding terms off by (simp add: sentinel_def eval_expr_def self_loops_def)
qed

text \<open>
  C4, amended: the objective of the assembled model is the sum of \<open>M[i][j]*x[i,j]\<close> over all
  ordered pairs of \<open>[0,n)\<close>, minimised, where \<open>M\<close> is the cost matrix after cell 45: the pairs
  \<open>i \<noteq> j\<close> carry the looked-up cost and every self-arc \<open>x[i,i]\<close> is a term with the
  coefficient \<open>1e12\<close>.
\<close>

theorem objective_sums_all_pairs:
  assumes "square n c"
  shows "objective (build_model n (overwrite_diagonal n c)) =
           map (\<lambda>(i, j). (if i = j then sentinel else c ! i ! j, X (i, j))) (x_keys n) \<and>
         eval_expr a (objective (build_model n (overwrite_diagonal n c))) =
           (\<Sum>i = 0..<n. \<Sum>j = 0..<n. (if i = j then sentinel else c ! i ! j) * a (X (i, j)))"
proof
  have sq': "square n (overwrite_diagonal n c)" using assms by (rule square_overwrite_diagonal)
  show "objective (build_model n (overwrite_diagonal n c)) =
           map (\<lambda>(i, j). (if i = j then sentinel else c ! i ! j, X (i, j))) (x_keys n)"
    unfolding objective_build_model loss_terms [OF sq']
    by (rule map_cong) (auto simp: set_x_keys overwrite_diagonal_nth [OF assms])
  show "eval_expr a (objective (build_model n (overwrite_diagonal n c))) =
           (\<Sum>i = 0..<n. \<Sum>j = 0..<n. (if i = j then sentinel else c ! i ! j) * a (X (i, j)))"
    unfolding objective_build_model eval_loss [OF sq']
    by (intro sum.cong refl) (simp add: overwrite_diagonal_nth [OF assms])
qed

text \<open>Witness for C4: two locations one hour apart in each direction.\<close>

theorem objective_sums_all_pairs_witness:
  "square 2 [[0, 1], [1, 0]] \<and>
   objective (build_model 2 (overwrite_diagonal 2 [[0, 1], [1, 0]])) =
     [(sentinel, X (0, 0)), (1, X (0, 1)), (1, X (1, 0)), (sentinel, X (1, 1))] \<and>
   eval_expr self_loops (objective (build_model 2 (overwrite_diagonal 2 [[0, 1], [1, 0]]))) =
     2 * sentinel"
proof -
  have sq: "square 2 [[0, 1], [1, 0]]" by (simp add: square_def)
  have keys: "x_keys 2 = [(0, 0), (0, 1), (1, 0), (1, 1)]"
    by (simp add: x_keys_def lbl_def upt_rec numeral_2_eq_2)
  note main = objective_sums_all_pairs [OF sq, of self_loops]
  from main [THEN conjunct1]
  have "objective (build_model 2 (overwrite_diagonal 2 [[0, 1], [1, 0]])) =
     [(sentinel, X (0, 0)), (1, X (0, 1)), (1, X (1, 0)), (sentinel, X (1, 1))]"
    unfolding keys by simp
  moreover from main [THEN conjunct2]
  have "eval_expr self_loops (objective (build_model 2 (overwrite_diagonal 2 [[0, 1], [1, 0]]))) =
     2 * sentinel"
    by (simp add: self_loops_def eval_nat_numeral)
  ultimately show ?thesis using sq by blast
qed

section \<open>Claim C7: which arcs are selected\<close>

lemma get_edges_solved_x:
  "get_edges (solved_x n a) = filter (\<lambda>k. a (X k) = 1) (x_keys n)"
  by (simp add: get_edges_def solved_x_def filter_map comp_def)

lemma x_keys_2: "x_keys 2 = [(0, 0), (0, 1), (1, 0), (1, 1)]"
  by (simp add: x_keys_def lbl_def upt_rec numeral_2_eq_2)

lemma x_keys_3:
  "x_keys 3 = [(0, 0), (0, 1), (0, 2), (1, 0), (1, 1), (1, 2), (2, 0), (2, 1), (2, 2)]"
  by (simp add: x_keys_def lbl_def upt_rec numeral_3_eq_3)

text \<open>
  C7, as stated, fails: \<open>get_edges\<close> compares with \<open>== 1\<close>. A solution value of 0.75 is
  greater than 0.5 and its arc is not selected.
\<close>

theorem fractional_value_not_selected:
  "fractional_solution (X (0, 1)) > 0.5 \<and>
   (0, 1) \<notin> set (get_edges (solved_x 2 fractional_solution)) \<and>
   get_edges (solved_x 2 fractional_solution) = [(1, 0)]"
  by (simp add: get_edges_solved_x x_keys_2 fractional_solution_def)

text \<open>
  C7, amended: given a solution, the tour extractor selects exactly the ordered pairs
  \<open>(i,j)\<close> of \<open>[0,n)\<close> whose solved \<open>x[i,j]\<close> is equal to 1, in the order of the keys; there is
  no tolerance, a value other than 1 is not selected.
\<close>

theorem get_edges_selects_value_one:
  "get_edges (solved_x n a) = filter (\<lambda>k. a (X k) = 1) (x_keys n) \<and>
   set (get_edges (solved_x n a)) = {k \<in> {0..<n} \<times> {0..<n}. a (X k) = 1}"
  by (auto simp: get_edges_solved_x set_x_keys)

text \<open>Witness for C7: the fractional solution on two locations.\<close>

theorem get_edges_selects_value_one_witness:
  "get_edges (solved_x 2 fractional_solution) = [(1, 0)] \<and>
   set (get_edges (solved_x 2 fractional_solution)) =
     {k \<in> {0..<2} \<times> {0..<2}. fractional_solution (X k) = 1}"
  using get_edges_selects_value_one [of 2 fractional_solution]
  by (simp add: x_keys_2 fractional_solution_def)

section \<open>The cells of the notebook\<close>

lemma inner_loop_Inl:
  assumes "inner_loop location gd i js s = Inl e"
  shows "\<exists>k < length js. e = LookupFailed i (js ! k) \<and>
           gd (location ! i) (location ! (js ! k)) = None \<and>
           (\<forall>k' < k. gd (location ! i) (location ! (js ! k')) \<noteq> None)"
  using assms
proof (induction js arbitrary: s)
  case Nil
  then show ?case by simp
next
  case (Cons j js)
  show ?case
  proof (cases "gd (location ! i) (location ! j)")
    case None
    with Cons.prems have "e = LookupFailed i j" by simp
    with None show ?thesis by (intro exI [of _ 0]) simp
  next
    case (Some d)
    with Cons.prems obtain s1 where "inner_loop location gd i js s1 = Inl e" by simp
    from Cons.IH [OF this] obtain k where k: "k < length js" "e = LookupFailed i (js ! k)"
      "gd (location ! i) (location ! (js ! k)) = None"
      "\<forall>k' < k. gd (location ! i) (location ! (js ! k')) \<noteq> None" by blast
    have "\<forall>k' < Suc k. gd (location ! i) (location ! ((j # js) ! k')) \<noteq> None"
    proof (intro allI impI)
      fix k' assume "k' < Suc k"
      then show "gd (location ! i) (location ! ((j # js) ! k')) \<noteq> None"
        using Some k(4) by (cases k') simp_all
    qed
    with k(1-3) show ?thesis by (intro exI [of _ "Suc k"]) simp
  qed
qed

lemma outer_loop_Inl:
  assumes "outer_loop location gd is js s = Inl e"
  shows "\<exists>m < length is. \<exists>k < length js. e = LookupFailed (is ! m) (js ! k) \<and>
           gd (location ! (is ! m)) (location ! (js ! k)) = None \<and>
           (\<forall>k' < k. gd (location ! (is ! m)) (location ! (js ! k')) \<noteq> None) \<and>
           (\<forall>m' < m. \<forall>k' < length js.
              gd (location ! (is ! m')) (location ! (js ! k')) \<noteq> None)"
  using assms
proof (induction "is" arbitrary: s)
  case Nil
  then show ?case by simp
next
  case (Cons i "is")
  show ?case
  proof (cases "inner_loop location gd i js s")
    case (Inl e')
    with Cons.prems have "e' = e" by simp
    with Inl inner_loop_Inl [of location gd i js s e]
    obtain k where "k < length js" "e = LookupFailed i (js ! k)"
      "gd (location ! i) (location ! (js ! k)) = None"
      "\<forall>k' < k. gd (location ! i) (location ! (js ! k')) \<noteq> None" by blast
    then show ?thesis by (intro exI [of _ 0]) auto
  next
    case (Inr s1)
    then have "\<not> isl (inner_loop location gd i js s)" by simp
    then have row: "\<forall>k' < length js. gd (location ! i) (location ! (js ! k')) \<noteq> None"
      unfolding inner_loop_isl by simp
    from Inr Cons.prems have "outer_loop location gd is js s1 = Inl e" by simp
    from Cons.IH [OF this] obtain m k where mk: "m < length is" "k < length js"
      "e = LookupFailed (is ! m) (js ! k)"
      "gd (location ! (is ! m)) (location ! (js ! k)) = None"
      "\<forall>k' < k. gd (location ! (is ! m)) (location ! (js ! k')) \<noteq> None"
      "\<forall>m' < m. \<forall>k' < length js.
          gd (location ! (is ! m')) (location ! (js ! k')) \<noteq> None" by blast
    have "\<forall>m' < Suc m. \<forall>k' < length js.
        gd (location ! ((i # is) ! m')) (location ! (js ! k')) \<noteq> None"
    proof (intro allI impI)
      fix m' k' assume "m' < Suc m" "k' < length js"
      then show "gd (location ! ((i # is) ! m')) (location ! (js ! k')) \<noteq> None"
        using row mk(6) by (cases m') simp_all
    qed
    with mk(1-5) show ?thesis
      by (intro exI [of _ "Suc m"] conjI exI [of _ k]) simp_all
  qed
qed

lemma build_cost_Inl:
  assumes "build_cost location gd = Inl e"
  shows "\<exists>i < length location. \<exists>j < length location. e = LookupFailed i j \<and>
           gd (location ! i) (location ! j) = None \<and>
           (\<forall>j' < j. gd (location ! i) (location ! j') \<noteq> None) \<and>
           (\<forall>i' < i. \<forall>j' < length location. gd (location ! i') (location ! j') \<noteq> None)"
proof -
  let ?n = "length location"
  from assms have "outer_loop location gd [0..<?n] [0..<?n] \<lparr>cost = zeros ?n, calls = []\<rparr> = Inl e"
    by (simp add: build_cost_def Let_def)
  from outer_loop_Inl [OF this] obtain m k where mk: "m < ?n" "k < ?n"
    "e = LookupFailed ([0..<?n] ! m) ([0..<?n] ! k)"
    "gd (location ! ([0..<?n] ! m)) (location ! ([0..<?n] ! k)) = None"
    "\<forall>k' < k. gd (location ! ([0..<?n] ! m)) (location ! ([0..<?n] ! k')) \<noteq> None"
    "\<forall>m' < m. \<forall>k' < length [0..<?n].
        gd (location ! ([0..<?n] ! m')) (location ! ([0..<?n] ! k')) \<noteq> None"
    by auto
  from mk(1,2,3,4) have a: "e = LookupFailed m k" "gd (location ! m) (location ! k) = None"
    by simp_all
  from mk(1,2,5) have b: "\<forall>j' < k. gd (location ! m) (location ! j') \<noteq> None" by simp
  from mk(1,6) have c: "\<forall>i' < m. \<forall>j' < ?n. gd (location ! i') (location ! j') \<noteq> None"
    by simp
  from mk(1,2) a b c show ?thesis by blast
qed

lemma assemble_cases:
  "assemble location gd =
     (case build_cost location gd of
        Inl e \<Rightarrow> Inl e
      | Inr s \<Rightarrow>
          Inr \<lparr>nb_cost = overwrite_diagonal (length location) (cost s),
               nb_calls = calls s,
               nb_model = build_model (length location)
                            (overwrite_diagonal (length location) (cost s)),
               nb_solution = None, nb_G = empty_graph\<rparr>)"
  by (simp add: assemble_def Let_def cells_47_to_49_def cell_45_def cells_29_to_41_def
      build_model_def split: sum.splits)

lemma isl_assemble: "isl (assemble location gd) \<longleftrightarrow> isl (build_cost location gd)"
  unfolding assemble_cases by (simp split: sum.splits)

lemma add_edge_edges: "set (edges (add_edge e g)) = insert e (set (edges g))"
  by (auto simp: add_edge_def add_node_def Let_def)

lemma add_edge_nodes: "set (nodes (add_edge e g)) = {fst e, snd e} \<union> set (nodes g)"
  by (auto simp: add_edge_def add_node_def Let_def)

lemma add_edges_from_edges: "set (edges (add_edges_from es g)) = set es \<union> set (edges g)"
  unfolding add_edges_from_def by (induction es arbitrary: g) (auto simp: add_edge_edges)

lemma add_edges_from_nodes:
  "set (nodes (add_edges_from es g)) = fst ` set es \<union> snd ` set es \<union> set (nodes g)"
  unfolding add_edges_from_def by (induction es arbitrary: g) (auto simp: add_edge_nodes)

lemma run_cases:
  "run location gd solve =
     (case assemble location gd of
        Inl e \<Rightarrow> Inl e
      | Inr nb \<Rightarrow>
          (case solve (nb_model nb) of
             None \<Rightarrow> Inl NoSolution
           | Some a \<Rightarrow>
               Inr (nb\<lparr>nb_solution := Some a,
                        nb_G := add_edges_from (get_edges (solved_x (length location) a))
                                  empty_graph\<rparr>)))"
  by (simp add: run_def cells_61_to_63_def cell_51_def split: sum.splits option.splits)

lemma build_cost_three_locations:
  "build_cost [''A'', ''B'', ''C''] (\<lambda>a b. Some 3600) =
     Inr \<lparr>cost = [[1, 1, 1], [1, 1, 1], [1, 1, 1]],
          calls = [(0, 0), (0, 1), (0, 2), (1, 0), (1, 1), (1, 2), (2, 0), (2, 1), (2, 2)]\<rparr>"
  by (simp add: build_cost_def Let_def upt_rec zeros_def set_entry_def numeral_3_eq_3)

section \<open>Claim C8: the edges go to the graph as they are\<close>

text \<open>
  C8, as stated, fails: the notebook has no walk from node 0, no validation and no error for
  a malformed solution. With three locations and a solver that gives node 0 two successors,
  the run ends normally with the graph of these two edges.
\<close>

theorem malformed_solution_is_returned:
  "map_sum id nb_G (run [''A'', ''B'', ''C''] (\<lambda>a b. Some 3600) (\<lambda>m. Some malformed_solution)) =
     Inr \<lparr>nodes = [0, 1, 2], edges = [(0, 1), (0, 2)]\<rparr>"
proof -
  have len: "length [''A'', ''B'', ''C''] = 3" by simp
  show ?thesis
    unfolding run_cases assemble_cases build_cost_three_locations len
    by (simp add: get_edges_solved_x x_keys_3 malformed_solution_def add_edges_from_def
        add_edge_def add_node_def empty_graph_def Let_def)
qed

text \<open>
  C8, amended: given a solution, the edges selected by \<open>get_edges\<close> are added to a new
  directed graph, and that is all: for every solution, whatever the degrees of its nodes,
  the last cells return the graph whose edges are exactly the pairs with solved value 1 and
  whose nodes are their end points. Nothing is walked, validated or rejected.
\<close>

theorem edges_are_added_unvalidated:
  assumes "nb_solution nb = Some a"
  shows "\<exists>nb'. cells_61_to_63 n nb = Inr nb' \<and>
           set (edges (nb_G nb')) = {k \<in> {0..<n} \<times> {0..<n}. a (X k) = 1} \<and>
           set (nodes (nb_G nb')) =
             fst ` {k \<in> {0..<n} \<times> {0..<n}. a (X k) = 1} \<union>
             snd ` {k \<in> {0..<n} \<times> {0..<n}. a (X k) = 1}"
proof -
  let ?E = "{k \<in> {0..<n} \<times> {0..<n}. a (X k) = 1}"
  have E: "set (get_edges (solved_x n a)) = ?E" by (auto simp: get_edges_solved_x set_x_keys)
  let ?nb' = "nb\<lparr>nb_G := add_edges_from (get_edges (solved_x n a)) empty_graph\<rparr>"
  have "cells_61_to_63 n nb = Inr ?nb'" using assms by (simp add: cells_61_to_63_def)
  moreover have "set (edges (nb_G ?nb')) = ?E"
    by (simp add: add_edges_from_edges E empty_graph_def)
  moreover have "set (nodes (nb_G ?nb')) = fst ` ?E \<union> snd ` ?E"
    by (simp add: add_edges_from_nodes E empty_graph_def)
  ultimately show ?thesis by blast
qed

text \<open>Witness for C8: three locations and the solution that gives node 0 two successors.\<close>

theorem edges_are_added_unvalidated_witness:
  "nb_solution \<lparr>nb_cost = [], nb_calls = [], nb_model = empty_model,
      nb_solution = Some malformed_solution, nb_G = empty_graph\<rparr> = Some malformed_solution \<and>
   (\<exists>nb'. cells_61_to_63 3 \<lparr>nb_cost = [], nb_calls = [], nb_model = empty_model,
              nb_solution = Some malformed_solution, nb_G = empty_graph\<rparr> = Inr nb' \<and>
          set (edges (nb_G nb')) = {(0, 1), (0, 2)} \<and>
          set (nodes (nb_G nb')) = {0, 1, 2})"
proof -
  let ?nb = "\<lparr>nb_cost = [], nb_calls = [], nb_model = empty_model,
      nb_solution = Some malformed_solution, nb_G = empty_graph\<rparr>"
  have s: "nb_solution ?nb = Some malformed_solution" by simp
  have E: "{k \<in> {0..<3} \<times> {0..<3}. malformed_solution (X k) = 1} = {(0, 1), (0, 2)}"
    by (auto simp: malformed_solution_def)
  from edges_are_added_unvalidated [OF s, of 3] show ?thesis
    unfolding E by (simp add: insert_commute)
qed

section \<open>Claim C6: small inputs\<close>

text \<open>
  C6, as stated, fails: no cell looks at the number of locations. With no location and with
  one location the model is assembled, and with one location and a solver that returns the
  only feasible assignment the run ends with the self-arc of node 0 as its graph.
\<close>

theorem small_inputs_are_assembled:
  "\<not> isl (assemble ([] :: string list) (\<lambda>a b. Some 0)) \<and>
   \<not> isl (assemble [''A''] (\<lambda>a b. Some 0)) \<and>
   map_sum id nb_G (run [''A''] (\<lambda>a b. Some 0) (\<lambda>m. Some self_loops)) =
     Inr \<lparr>nodes = [0], edges = [(0, 0)]\<rparr>"
proof -
  have b: "build_cost [''A''] (\<lambda>a b. Some 0) = Inr \<lparr>cost = [[0]], calls = [(0, 0)]\<rparr>"
    by (simp add: build_cost_def Let_def zeros_def set_entry_def)
  have k: "x_keys (Suc 0) = [(0, 0)]" by (simp add: x_keys_def lbl_def)
  have "map_sum id nb_G (run [''A''] (\<lambda>a b. Some 0) (\<lambda>m. Some self_loops)) =
     Inr \<lparr>nodes = [0], edges = [(0, 0)]\<rparr>"
    unfolding run_cases assemble_cases b
    by (simp add: get_edges_solved_x k self_loops_def add_edges_from_def
        add_edge_def add_node_def empty_graph_def Let_def)
  then show ?thesis by (simp add: isl_assemble build_cost_isl)
qed

text \<open>
  C6, amended: no cell looks at the number of locations and there is no error for the size
  of the input. For every \<open>n\<close>, 0 and 1 included, if all \<open>n\<^sup>2\<close> lookups return then the
  cells up to the complete model return the model for \<open>n\<close> locations (empty for \<open>n = 0\<close>).
  They fail exactly when some lookup among the pairs fails, and then the error is that of
  the first failing pair in row order: its lookup returned nothing and every pair before it
  was looked up with success.
\<close>

theorem assemble_fails_only_on_lookup:
  "(isl (assemble location gd) \<longleftrightarrow>
      (\<exists>i < length location. \<exists>j < length location. gd (location ! i) (location ! j) = None)) \<and>
   ((\<forall>i < length location. \<forall>j < length location. gd (location ! i) (location ! j) \<noteq> None) \<longrightarrow>
      (\<exists>nb. assemble location gd = Inr nb \<and>
            nb_model nb = build_model (length location) (nb_cost nb))) \<and>
   (\<forall>e. assemble location gd = Inl e \<longrightarrow>
      (\<exists>i < length location. \<exists>j < length location. e = LookupFailed i j \<and>
         gd (location ! i) (location ! j) = None \<and>
         (\<forall>j' < j. gd (location ! i) (location ! j') \<noteq> None) \<and>
         (\<forall>i' < i. \<forall>j' < length location. gd (location ! i') (location ! j') \<noteq> None))) \<and>
   (\<forall>nb. assemble location gd = Inr nb \<longrightarrow>
      nb_model nb = build_model (length location) (nb_cost nb))"
proof (intro conjI allI impI)
  show iff: "isl (assemble location gd) \<longleftrightarrow>
      (\<exists>i < length location. \<exists>j < length location. gd (location ! i) (location ! j) = None)"
    by (simp add: isl_assemble build_cost_isl)
  have model: "nb_model nb = build_model (length location) (nb_cost nb)"
    if "assemble location gd = Inr nb" for nb
    using that unfolding assemble_cases by (auto split: sum.splits)
  show "nb_model nb = build_model (length location) (nb_cost nb)"
    if "assemble location gd = Inr nb" for nb
    using that by (rule model)
  show "\<exists>nb. assemble location gd = Inr nb \<and>
            nb_model nb = build_model (length location) (nb_cost nb)"
    if "\<forall>i < length location. \<forall>j < length location. gd (location ! i) (location ! j) \<noteq> None"
  proof -
    from that iff have "\<not> isl (assemble location gd)" by blast
    then obtain nb where "assemble location gd = Inr nb"
      by (cases "assemble location gd") simp_all
    with model show ?thesis by blast
  qed
next
  fix e assume "assemble location gd = Inl e"
  then have "build_cost location gd = Inl e"
    unfolding assemble_cases by (simp split: sum.splits)
  then show "\<exists>i < length location. \<exists>j < length location. e = LookupFailed i j \<and>
         gd (location ! i) (location ! j) = None \<and>
         (\<forall>j' < j. gd (location ! i) (location ! j') \<noteq> None) \<and>
         (\<forall>i' < i. \<forall>j' < length location. gd (location ! i') (location ! j') \<noteq> None)"
    by (rule build_cost_Inl)
qed

text \<open>
  Witness for C6: with one location whose self-lookup returns, the model is assembled. With
  two locations and a lookup that raises only at the pair (1, 0), the cells fail with the
  error of that pair, after the pairs (0, 0) and (0, 1) were looked up with success.
\<close>

theorem assemble_fails_only_on_lookup_witness:
  "\<not> isl (assemble [''A''] (\<lambda>a b. Some 0)) \<and>
   (\<exists>nb. assemble [''A''] (\<lambda>a b. Some 0) = Inr nb \<and> nb_model nb = build_model 1 [[sentinel]]) \<and>
   (\<lambda>a b. if a = ''B'' \<and> b = ''A'' then None else Some (0 :: int))
      ([''A'', ''B''] ! 1) ([''A'', ''B''] ! 0) = None \<and>
   assemble [''A'', ''B''] (\<lambda>a b. if a = ''B'' \<and> b = ''A'' then None else Some 0) =
     Inl (LookupFailed 1 0)"
proof -
  let ?gd = "\<lambda>a b. if a = ''B'' \<and> b = ''A'' then None else Some (0 :: int)"
  have b: "build_cost [''A''] (\<lambda>a b. Some 0) = Inr \<lparr>cost = [[0]], calls = [(0, 0)]\<rparr>"
    by (simp add: build_cost_def Let_def zeros_def set_entry_def)
  have d: "overwrite_diagonal (Suc 0) [[0]] = [[sentinel]]"
    by (simp add: overwrite_diagonal_def set_entry_def)
  let ?nb = "\<lparr>nb_cost = [[sentinel]], nb_calls = [(0, 0)],
               nb_model = build_model 1 [[sentinel]],
               nb_solution = None, nb_G = empty_graph\<rparr>"
  have ok: "assemble [''A''] (\<lambda>a b. Some 0) = Inr ?nb"
    unfolding assemble_cases b by (simp add: d)
  note good = assemble_fails_only_on_lookup [of "[''A'']" "\<lambda>a b. Some 0"]
  note bad = assemble_fails_only_on_lookup [of "[''A'', ''B'']" ?gd]
  from good have n1: "\<not> isl (assemble [''A''] (\<lambda>a b. Some 0))" by simp
  from good ok have n2: "nb_model ?nb = build_model 1 [[sentinel]]" by simp
  have none: "?gd ([''A'', ''B''] ! 1) ([''A'', ''B''] ! 0) = None" by simp
  have "\<exists>i < length [''A'', ''B'']. \<exists>j < length [''A'', ''B''].
      ?gd ([''A'', ''B''] ! i) ([''A'', ''B''] ! j) = None"
    by (intro exI [of _ 1] conjI exI [of _ 0]) simp_all
  with bad have "isl (assemble [''A'', ''B''] ?gd)" by blast
  then obtain e where e: "assemble [''A'', ''B''] ?gd = Inl e"
    by (cases "assemble [''A'', ''B''] ?gd") simp_all
  with bad obtain i j where ij: "i < length [''A'', ''B'']" "j < length [''A'', ''B'']"
    "e = LookupFailed i j" "?gd ([''A'', ''B''] ! i) ([''A'', ''B''] ! j) = None"
    by blast
  from ij(1) have "i = 0 \<or> i = 1" by auto
  moreover from ij(2) have "j = 0 \<or> j = 1" by auto
  ultimately have "i = 1 \<and> j = 0" using ij(4) by (auto split: if_splits)
  with e ij(3) have "assemble [''A'', ''B''] ?gd = Inl (LookupFailed 1 0)" by simp
  with n1 n2 ok none show ?thesis by simp
qed

section \<open>Claim C9: the cost matrix after its construction\<close>

text \<open>
  C9: the cost matrix is written by the loops of cell 14 and by the diagonal overwrite of
  cell 45, which completes it. The cells that declare the variables and constraints (they
  run between the two), build the objective, solve and extract the edges leave it as it
  is: after a complete run the matrix is the one at the end of cell 45, entry by entry.
\<close>

theorem cost_matrix_kept_after_construction:
  "nb_cost (cells_29_to_41 n s) = cost s \<and>
   nb_cost (cells_47_to_49 n nb) = nb_cost nb \<and>
   nb_cost (cell_51 solve nb) = nb_cost nb \<and>
   (\<forall>nb'. cells_61_to_63 n nb = Inr nb' \<longrightarrow> nb_cost nb' = nb_cost nb) \<and>
   (\<forall>s0 final. build_cost location gd = Inr s0 \<and> run location gd solve = Inr final \<longrightarrow>
      nb_cost final = nb_cost (cell_45 (length location) (cells_29_to_41 (length location) s0)) \<and>
      (\<forall>i < length location. \<forall>j < length location.
         nb_cost final ! i ! j = overwrite_diagonal (length location) (cost s0) ! i ! j))"
proof (intro conjI allI impI)
  show "nb_cost (cells_29_to_41 n s) = cost s" by (simp add: cells_29_to_41_def)
  show "nb_cost (cells_47_to_49 n nb) = nb_cost nb" by (simp add: cells_47_to_49_def)
  show "nb_cost (cell_51 solve nb) = nb_cost nb" by (simp add: cell_51_def)
  show "nb_cost nb' = nb_cost nb" if "cells_61_to_63 n nb = Inr nb'" for nb'
    using that by (auto simp: cells_61_to_63_def split: option.splits)
next
  fix s0 final
  assume a: "build_cost location gd = Inr s0 \<and> run location gd solve = Inr final"
  then have c: "nb_cost final = overwrite_diagonal (length location) (cost s0)"
    unfolding run_cases assemble_cases by (auto split: option.splits)
  then show "nb_cost final =
      nb_cost (cell_45 (length location) (cells_29_to_41 (length location) s0))"
    by (simp add: cell_45_def cells_29_to_41_def)
  show "nb_cost final ! i ! j = overwrite_diagonal (length location) (cost s0) ! i ! j"
    if "i < length location" "j < length location" for i j
    using c by simp
qed

text \<open>
  Witness for C9: two locations two hours apart; after the run with a solver that returns
  the tour 0, 1 the matrix is the one of cell 45.
\<close>

theorem cost_matrix_kept_after_construction_witness:
  "build_cost [''A'', ''B''] (\<lambda>a b. Some 7200) =
     Inr \<lparr>cost = [[2, 2], [2, 2]], calls = [(0, 0), (0, 1), (1, 0), (1, 1)]\<rparr> \<and>
   (\<exists>final. run [''A'', ''B''] (\<lambda>a b. Some 7200) (\<lambda>m. Some (tour_assignment [0, 1])) = Inr final \<and>
      nb_cost final = [[sentinel, 2], [2, sentinel]] \<and>
      nb_cost (cell_45 2 (cells_29_to_41 2
        \<lparr>cost = [[2, 2], [2, 2]], calls = [(0, 0), (0, 1), (1, 0), (1, 1)]\<rparr>)) =
        [[sentinel, 2], [2, sentinel]])"
proof -
  let ?s0 = "\<lparr>cost = [[2, 2], [2, 2]], calls = [(0, 0), (0, 1), (1, 0), (1, 1)]\<rparr>"
  let ?run = "run [''A'', ''B''] (\<lambda>a b. Some 7200) (\<lambda>m. Some (tour_assignment [0, 1]))"
  have "\<not> isl ?run"
    unfolding run_cases assemble_cases build_cost_two_locations by simp
  then obtain final where f: "?run = Inr final" by (cases ?run) simp_all
  have d: "nb_cost (cell_45 2 (cells_29_to_41 2 ?s0)) = [[sentinel, 2], [2, sentinel]]"
    by (simp add: cell_45_def cells_29_to_41_def overwrite_diagonal_def set_entry_def
        upt_rec numeral_2_eq_2)
  from cost_matrix_kept_after_construction
    [where location = "[''A'', ''B'']" and gd = "\<lambda>a b. Some 7200"
       and solve = "\<lambda>m. Some (tour_assignment [0, 1])"]
    build_cost_two_locations f
  have "nb_cost final = nb_cost (cell_45 (length [''A'', ''B''])
      (cells_29_to_41 (length [''A'', ''B'']) ?s0))" by blast
  then have "nb_cost final = [[sentinel, 2], [2, sentinel]]"
    using d by (simp add: numeral_2_eq_2)
  with f d build_cost_two_locations show ?thesis by blast
qed

section \<open>Degrees and the value of the objective\<close>

lemma binary_sum_card:
  fixes f :: "nat \<Rightarrow> real"
  assumes "\<forall>j < n. f j = 0 \<or> f j = 1" "sum f {0..<n} = 1"
  shows "card {j. j < n \<and> f j = 1} = 1"
proof -
  have "sum f {0..<n} = (\<Sum>j = 0..<n. if f j = 1 then 1 else 0)"
    by (rule sum.cong) (use assms(1) in auto)
  also have "\<dots> = (\<Sum>j \<in> {j \<in> {0..<n}. f j = 1}. 1)"
    by (rule sum.inter_filter [symmetric]) simp
  also have "\<dots> = real (card {j \<in> {0..<n}. f j = 1})" by simp
  finally have "real (card {j \<in> {0..<n}. f j = 1}) = 1" using assms(2) by simp
  moreover have "{j \<in> {0..<n}. f j = 1} = {j. j < n \<and> f j = 1}" by auto
  ultimately show ?thesis by simp
qed

lemma feasible_degrees:
  assumes "feasible (build_model n c) a" "i < n"
  shows "card {j. j < n \<and> a (X (i, j)) = 1} = 1" "card {j. j < n \<and> a (X (j, i)) = 1} = 1"
proof -
  from assms have "\<forall>j < n. a (X (i, j)) = 0 \<or> a (X (i, j)) = 1" "(\<Sum>j = 0..<n. a (X (i, j))) = 1"
    unfolding feasible_iff by blast+
  then show "card {j. j < n \<and> a (X (i, j)) = 1} = 1" by (rule binary_sum_card)
  from assms have "\<forall>j < n. a (X (j, i)) = 0 \<or> a (X (j, i)) = 1" "(\<Sum>j = 0..<n. a (X (j, i))) = 1"
    unfolding feasible_iff by blast+
  then show "card {j. j < n \<and> a (X (j, i)) = 1} = 1" by (rule binary_sum_card)
qed

lemma feasible_nonneg:
  assumes "feasible (build_model n c) a" "i < n" "j < n"
  shows "0 \<le> a (X (i, j))"
proof -
  from assms have "a (X (i, j)) = 0 \<or> a (X (i, j)) = 1" unfolding feasible_iff by blast
  then show ?thesis by auto
qed

lemma objective_lower_bound:
  assumes f: "feasible (build_model n c) b" and sq: "square n c"
    and L: "\<forall>i < n. \<forall>j < n. L \<le> c ! i ! j"
  shows "real n * L \<le> eval_expr b (loss n c)"
proof -
  have row: "L \<le> (\<Sum>j = 0..<n. c ! i ! j * b (X (i, j)))" if i: "i < n" for i
  proof -
    have "(\<Sum>j = 0..<n. L * b (X (i, j))) \<le> (\<Sum>j = 0..<n. c ! i ! j * b (X (i, j)))"
      by (rule sum_mono) (use L i feasible_nonneg [OF f i] in \<open>simp add: mult_right_mono\<close>)
    moreover have "(\<Sum>j = 0..<n. L * b (X (i, j))) = L * (\<Sum>j = 0..<n. b (X (i, j)))"
      by (simp add: sum_distrib_left)
    moreover have "(\<Sum>j = 0..<n. b (X (i, j))) = 1" using f i unfolding feasible_iff by blast
    ultimately show ?thesis by simp
  qed
  have "(\<Sum>i = 0..<n. L) \<le> (\<Sum>i = 0..<n. \<Sum>j = 0..<n. c ! i ! j * b (X (i, j)))"
    by (rule sum_mono) (simp add: row)
  then show ?thesis unfolding eval_loss [OF sq] by simp
qed

lemma objective_upper_bound:
  assumes f: "feasible (build_model n c) b" and sq: "square n c"
    and B: "\<forall>i < n. \<forall>j < n. i \<noteq> j \<longrightarrow> c ! i ! j \<le> B"
    and no_self: "\<forall>i < n. b (X (i, i)) = 0"
  shows "eval_expr b (loss n c) \<le> real n * B"
proof -
  have row: "(\<Sum>j = 0..<n. c ! i ! j * b (X (i, j))) \<le> B" if i: "i < n" for i
  proof -
    have "(\<Sum>j = 0..<n. c ! i ! j * b (X (i, j))) \<le> (\<Sum>j = 0..<n. B * b (X (i, j)))"
    proof (rule sum_mono)
      fix j assume "j \<in> {0..<n}"
      then have j: "j < n" by simp
      show "c ! i ! j * b (X (i, j)) \<le> B * b (X (i, j))"
      proof (cases "i = j")
        case True
        with no_self i show ?thesis by simp
      next
        case False
        with B i j have "c ! i ! j \<le> B" by blast
        then show ?thesis using feasible_nonneg [OF f i j] by (rule mult_right_mono)
      qed
    qed
    moreover have "(\<Sum>j = 0..<n. B * b (X (i, j))) = B * (\<Sum>j = 0..<n. b (X (i, j)))"
      by (simp add: sum_distrib_left)
    moreover have "(\<Sum>j = 0..<n. b (X (i, j))) = 1" using f i unfolding feasible_iff by blast
    ultimately show ?thesis by simp
  qed
  have "(\<Sum>i = 0..<n. \<Sum>j = 0..<n. c ! i ! j * b (X (i, j))) \<le> (\<Sum>i = 0..<n. B)"
    by (rule sum_mono) (simp add: row)
  then show ?thesis unfolding eval_loss [OF sq] by simp
qed

lemma self_arc_costs_sentinel:
  assumes f: "feasible (build_model n c) a" and sq: "square n c"
    and nonneg: "\<forall>i < n. \<forall>j < n. 0 \<le> c ! i ! j"
    and i: "i < n" and sel: "a (X (i, i)) = 1"
  shows "c ! i ! i \<le> eval_expr a (loss n c)"
proof -
  have t: "0 \<le> c ! k ! j * a (X (k, j))" if "k < n" "j < n" for k j
    using nonneg that feasible_nonneg [OF f that] by simp
  have "c ! i ! i * a (X (i, i)) \<le> (\<Sum>j = 0..<n. c ! i ! j * a (X (i, j)))"
    by (rule member_le_sum) (use i t in auto)
  also have "\<dots> \<le> (\<Sum>k = 0..<n. \<Sum>j = 0..<n. c ! k ! j * a (X (k, j)))"
    by (rule member_le_sum [where f = "\<lambda>k. \<Sum>j = 0..<n. c ! k ! j * a (X (k, j))"])
       (use i t in \<open>auto intro!: sum_nonneg\<close>)
  finally show ?thesis unfolding eval_loss [OF sq] using sel by simp
qed

lemma hamiltonian_upt: "0 < n \<Longrightarrow> hamiltonian n [0..<n]"
  by (auto simp: hamiltonian_def hd_upt)

lemma tour_no_self_arc:
  assumes h: "hamiltonian n tour" and n: "2 \<le> n"
  shows "tour_assignment tour (X (i, i)) = 0"
proof -
  note len = hamiltonian_length [OF h] and d = hamiltonian_parts(1) [OF h]
  have "(i, i) \<notin> set (cycle_arcs tour)"
  proof
    assume "(i, i) \<in> set (cycle_arcs tour)"
    then obtain k where k: "k < n" "tour ! k = i" "tour ! (Suc k mod n) = i"
      by (auto simp: cycle_arcs_iff len)
    have m: "Suc k mod n < length tour" using k(1) len by simp
    have "tour ! (Suc k mod n) = tour ! k" using k by simp
    with d m k(1) len have "Suc k mod n = k" using nth_eq_iff_index_eq by blast
    show False
    proof (cases "Suc k < n")
      case True
      with \<open>Suc k mod n = k\<close> show False by simp
    next
      case False
      with k(1) have "Suc k = n" by simp
      with \<open>Suc k mod n = k\<close> n show False by simp
    qed
  qed
  then show ?thesis by (simp add: tour_assignment_def)
qed

lemma eval_self_loops:
  assumes "square n c"
  shows "eval_expr self_loops (loss n c) = (\<Sum>i = 0..<n. c ! i ! i)"
proof -
  have "(\<Sum>j = 0..<n. c ! i ! j * self_loops (X (i, j))) = c ! i ! i" if "i < n" for i
  proof -
    have "(\<Sum>j = 0..<n. c ! i ! j * self_loops (X (i, j))) =
        (\<Sum>j = 0..<n. if j = i then c ! i ! i else 0)"
      by (rule sum.cong) (auto simp: self_loops_def)
    also have "\<dots> = c ! i ! i" using that by simp
    finally show ?thesis .
  qed
  then show ?thesis unfolding eval_loss [OF assms] by simp
qed

lemma hamiltonian_01: "hamiltonian 2 [0, 1]"
  by (auto simp: hamiltonian_def)

lemma square_unit_2: "square 2 [[0, 1], [1, 0]]"
  by (simp add: square_def)

lemma optimal_two_cycle:
  "optimal (build_model 2 (overwrite_diagonal 2 [[0, 1], [1, 0]])) (tour_assignment [0, 1])"
proof -
  let ?c = "overwrite_diagonal 2 [[0, 1], [1, 0]]"
  have sq: "square 2 ?c" using square_unit_2 by (rule square_overwrite_diagonal)
  have e: "?c ! i ! j = (if i = j then sentinel else [[0, 1], [1, 0]] ! i ! j)"
    if "i < 2" "j < 2" for i j
    using square_unit_2 that by (rule overwrite_diagonal_nth)
  have two: "i = 0 \<or> i = 1" if "i < 2" for i :: nat using that by arith
  have f: "feasible (build_model 2 ?c) (tour_assignment [0, 1])"
    by (rule tour_feasible [OF hamiltonian_01])
  have up: "\<forall>i < 2. \<forall>j < 2. i \<noteq> j \<longrightarrow> ?c ! i ! j \<le> 1"
    using e two by (auto simp: nth_Cons')
  have lo: "\<forall>i < 2. \<forall>j < 2. 1 \<le> ?c ! i ! j"
    using e two by (auto simp: sentinel_def nth_Cons')
  have no_self: "\<forall>i < 2. tour_assignment [0, 1] (X (i, i)) = 0"
    using tour_no_self_arc [OF hamiltonian_01] by simp
  have "eval_expr (tour_assignment [0, 1]) (loss 2 ?c) \<le> eval_expr b (loss 2 ?c)"
    if b: "feasible (build_model 2 ?c) b" for b
    using objective_upper_bound [OF f sq up no_self] objective_lower_bound [OF b sq lo]
    by simp
  with f show ?thesis by (simp add: optimal_def objective_build_model)
qed

section \<open>Claim C2: the degree constraints\<close>

text \<open>
  C2, as stated, fails: the two sums of cell 37 run over all of \<open>lbl\<close>, the term
  \<open>x[i,i]\<close> included. With two locations the assignment that selects the two self-arcs
  satisfies every constraint of the model, and the sum of \<open>x[0,j]\<close> over \<open>j \<noteq> 0\<close> is 0.
\<close>

theorem self_arcs_satisfy_degree_constraints:
  "feasible (build_model 2 (overwrite_diagonal 2 [[0, 1], [1, 0]])) self_loops \<and>
   holds self_loops (out_degree 2 0) \<and>
   sum_list (map (\<lambda>j. self_loops (X (0, j))) (exclude (lbl 2) 0)) = 0"
  by (simp add: feasible_self_loops holds_out_degree self_loops_def exclude_def lbl_def
      upt_rec numeral_2_eq_2)

text \<open>
  C2, amended: the model contains, for every node \<open>i\<close>, the constraint that the sum of
  \<open>x[i,j]\<close> over all \<open>j\<close> of \<open>[0,n)\<close>, \<open>j = i\<close> included, equals 1, and for every node
  \<open>j\<close> the constraint that the sum of \<open>x[i,j]\<close> over all \<open>i\<close>, \<open>i = j\<close> included, equals 1.
  So in every optimal solution, for every \<open>n\<close> and cost matrix, each node has exactly one
  selected arc leaving it and exactly one entering it, where a selected self-arc counts as
  both.
\<close>

theorem degree_constraints_count_self_arcs:
  "(\<forall>i < n. out_degree n i \<in> set (constraints (build_model n c)) \<and>
            in_degree n i \<in> set (constraints (build_model n c))) \<and>
   (\<forall>a i. holds a (out_degree n i) \<longleftrightarrow> (\<Sum>j = 0..<n. a (X (i, j))) = 1) \<and>
   (\<forall>a j. holds a (in_degree n j) \<longleftrightarrow> (\<Sum>i = 0..<n. a (X (i, j))) = 1) \<and>
   (\<forall>a. optimal (build_model n c) a \<longrightarrow>
      (\<forall>i < n. card {j. j < n \<and> a (X (i, j)) = 1} = 1 \<and>
               card {j. j < n \<and> a (X (j, i)) = 1} = 1))"
proof (intro conjI allI impI)
  fix i assume "i < n"
  then show "out_degree n i \<in> set (constraints (build_model n c))"
    and "in_degree n i \<in> set (constraints (build_model n c))"
    by (simp_all add: constraints_build_model c_1_4_def c_1_5_def set_lbl)
next
  fix a i
  show "holds a (out_degree n i) \<longleftrightarrow> (\<Sum>j = 0..<n. a (X (i, j))) = 1"
    by (rule holds_out_degree)
  show "holds a (in_degree n i) \<longleftrightarrow> (\<Sum>j = 0..<n. a (X (j, i))) = 1"
    by (rule holds_in_degree)
next
  fix a i assume "optimal (build_model n c) a" "i < n"
  then have f: "feasible (build_model n c) a" by (simp add: optimal_def)
  from feasible_degrees [OF f \<open>i < n\<close>]
  show "card {j. j < n \<and> a (X (i, j)) = 1} = 1" "card {j. j < n \<and> a (X (j, i)) = 1} = 1" .
qed

text \<open>
  Witness for C2: two locations one hour apart; the tour 0, 1 is optimal and node 0 has one
  selected arc out and one in.
\<close>

theorem degree_constraints_count_self_arcs_witness:
  "out_degree 2 0 \<in> set (constraints (build_model 2 (overwrite_diagonal 2 [[0, 1], [1, 0]]))) \<and>
   optimal (build_model 2 (overwrite_diagonal 2 [[0, 1], [1, 0]])) (tour_assignment [0, 1]) \<and>
   card {j. j < 2 \<and> tour_assignment [0, 1] (X (0, j)) = 1} = 1 \<and>
   card {j. j < 2 \<and> tour_assignment [0, 1] (X (j, 0)) = 1} = 1"
proof -
  note main = degree_constraints_count_self_arcs
    [of 2 "overwrite_diagonal 2 [[0, 1], [1, 0]]"]
  from main have "out_degree 2 0 \<in>
      set (constraints (build_model 2 (overwrite_diagonal 2 [[0, 1], [1, 0]])))" by simp
  moreover from main [THEN conjunct2, THEN conjunct2, THEN conjunct2, rule_format,
      OF optimal_two_cycle, of 0]
  have "card {j. j < 2 \<and> tour_assignment [0, 1] (X (0, j)) = 1} = 1 \<and>
        card {j. j < 2 \<and> tour_assignment [0, 1] (X (j, 0)) = 1} = 1"
    by simp
  ultimately show ?thesis using optimal_two_cycle by blast
qed

section \<open>Claim C5: the sentinel on the diagonal\<close>

lemma build_cost_long_trips:
  "build_cost [''A'', ''B'', ''C''] (\<lambda>a b. Some 7200000000000000) =
     Inr \<lparr>cost = replicate 3 (replicate 3 2000000000000), calls = x_keys 3\<rparr>"
  by (simp add: build_cost_def Let_def upt_rec zeros_def set_entry_def numeral_3_eq_3
      x_keys_def lbl_def)

text \<open>
  C5, as stated, fails: the diagonal is set to the constant \<open>1e12\<close> whatever the other
  entries are. With three locations and lookups of \<open>7.2e15\<close> seconds every off-diagonal
  entry is \<open>2e12\<close>, above the diagonal, and selecting the three self-arcs is optimal.
\<close>

theorem self_arcs_optimal_for_long_trips:
  "build_cost [''A'', ''B'', ''C''] (\<lambda>a b. Some 7200000000000000) =
     Inr \<lparr>cost = replicate 3 (replicate 3 2000000000000), calls = x_keys 3\<rparr> \<and>
   overwrite_diagonal 3 (replicate 3 (replicate 3 2000000000000)) ! 0 ! 0 <
     overwrite_diagonal 3 (replicate 3 (replicate 3 2000000000000)) ! 0 ! 1 \<and>
   optimal (build_model 3 (overwrite_diagonal 3 (replicate 3 (replicate 3 2000000000000))))
     self_loops \<and>
   self_loops (X (0, 0)) = 1"
proof -
  let ?base = "replicate 3 (replicate 3 (2000000000000 :: real))"
  let ?c = "overwrite_diagonal 3 ?base"
  have sq0: "square 3 ?base" by (simp add: square_def list_all_iff)
  have sq: "square 3 ?c" using sq0 by (rule square_overwrite_diagonal)
  have e: "?c ! i ! j = (if i = j then sentinel else 2000000000000)" if "i < 3" "j < 3" for i j
    using overwrite_diagonal_nth [OF sq0 that] that by simp
  have lo: "\<forall>i < 3. \<forall>j < 3. sentinel \<le> ?c ! i ! j"
    using e by (simp add: sentinel_def)
  have f: "feasible (build_model 3 ?c) self_loops" by (rule feasible_self_loops)
  have v: "eval_expr self_loops (loss 3 ?c) = real 3 * sentinel"
    unfolding eval_self_loops [OF sq] using e by simp
  have "eval_expr self_loops (loss 3 ?c) \<le> eval_expr b (loss 3 ?c)"
    if b: "feasible (build_model 3 ?c) b" for b
    using objective_lower_bound [OF b sq lo] v by simp
  with f have "optimal (build_model 3 ?c) self_loops"
    by (simp add: optimal_def objective_build_model)
  moreover have "?c ! 0 ! 0 < ?c ! 0 ! 1" using e [of 0 0] e [of 0 1] by (simp add: sentinel_def)
  ultimately show ?thesis using build_cost_long_trips by (simp add: self_loops_def)
qed

text \<open>
  C5, amended: every diagonal entry of the cost matrix used in the objective is the
  sentinel \<open>1e12\<close>, whatever the off-diagonal entries are (they stay as looked up), and
  the self-arc variables exist in the model. When \<open>n \<ge> 2\<close>, the off-diagonal entries are
  non-negative and \<open>n\<close> times the largest of them is below \<open>1e12\<close>, no optimal solution
  selects a self-arc: \<open>x[i,i] = 0\<close> at every optimum.
\<close>

theorem no_self_arc_at_optimum:
  assumes sq: "square n c"
  shows "(\<forall>i < n. overwrite_diagonal n c ! i ! i = sentinel) \<and>
         (\<forall>i < n. \<forall>j < n. i \<noteq> j \<longrightarrow> overwrite_diagonal n c ! i ! j = c ! i ! j) \<and>
         (\<forall>i < n. (i, i) \<in> set (binary_vars (build_model n (overwrite_diagonal n c)))) \<and>
         (\<forall>a B. 2 \<le> n \<and> (\<forall>i < n. \<forall>j < n. i \<noteq> j \<longrightarrow> 0 \<le> c ! i ! j \<and> c ! i ! j \<le> B) \<and>
                real n * B < sentinel \<and>
                optimal (build_model n (overwrite_diagonal n c)) a \<longrightarrow>
                (\<forall>i < n. a (X (i, i)) = 0))"
proof (intro conjI allI impI)
  let ?c = "overwrite_diagonal n c"
  have sq': "square n ?c" using sq by (rule square_overwrite_diagonal)
  have e: "?c ! i ! j = (if i = j then sentinel else c ! i ! j)" if "i < n" "j < n" for i j
    using sq that by (rule overwrite_diagonal_nth)
  show "?c ! i ! i = sentinel" if "i < n" for i using e [OF that that] by simp
  show "?c ! i ! j = c ! i ! j" if "i < n" "j < n" "i \<noteq> j" for i j
    using e [OF that(1,2)] that(3) by simp
  show "(i, i) \<in> set (binary_vars (build_model n ?c))" if "i < n" for i
    using that by (simp add: binary_vars_build_model set_x_keys)
  fix a B i
  assume hyp: "2 \<le> n \<and> (\<forall>i < n. \<forall>j < n. i \<noteq> j \<longrightarrow> 0 \<le> c ! i ! j \<and> c ! i ! j \<le> B) \<and>
                real n * B < sentinel \<and> optimal (build_model n ?c) a"
    and i: "i < n"
  from hyp have n: "2 \<le> n"
    and off: "\<forall>i < n. \<forall>j < n. i \<noteq> j \<longrightarrow> 0 \<le> c ! i ! j \<and> c ! i ! j \<le> B"
    and small: "real n * B < sentinel"
    and opt: "optimal (build_model n ?c) a" by blast+
  from opt have f: "feasible (build_model n ?c) a"
    and best: "\<And>b. feasible (build_model n ?c) b \<Longrightarrow>
        eval_expr a (loss n ?c) \<le> eval_expr b (loss n ?c)"
    by (simp_all add: optimal_def objective_build_model)
  have h: "hamiltonian n [0..<n]" using n by (intro hamiltonian_upt) simp
  have tf: "feasible (build_model n ?c) (tour_assignment [0..<n])" by (rule tour_feasible [OF h])
  have up: "\<forall>i < n. \<forall>j < n. i \<noteq> j \<longrightarrow> ?c ! i ! j \<le> B" using e off by simp
  have no_self: "\<forall>i < n. tour_assignment [0..<n] (X (i, i)) = 0"
    using tour_no_self_arc [OF h n] by simp
  have tour_cost: "eval_expr (tour_assignment [0..<n]) (loss n ?c) < sentinel"
    using objective_upper_bound [OF tf sq' up no_self] small by simp
  have nonneg: "\<forall>i < n. \<forall>j < n. 0 \<le> ?c ! i ! j"
    using e off by (simp add: sentinel_def)
  show "a (X (i, i)) = 0"
  proof (rule ccontr)
    assume "a (X (i, i)) \<noteq> 0"
    moreover from f i have "a (X (i, i)) = 0 \<or> a (X (i, i)) = 1" unfolding feasible_iff by blast
    ultimately have sel: "a (X (i, i)) = 1" by simp
    from self_arc_costs_sentinel [OF f sq' nonneg i sel] e [OF i i]
    have "sentinel \<le> eval_expr a (loss n ?c)" by simp
    with best [OF tf] tour_cost show False by simp
  qed
qed

text \<open>
  Witness for C5: two locations one hour apart and the optimal tour 0, 1; and three
  locations with entries of \<open>2e12\<close>, where the diagonal is the sentinel all the same.
\<close>

theorem no_self_arc_at_optimum_witness:
  "square 2 [[0, 1], [1, 0]] \<and>
   overwrite_diagonal 2 [[0, 1], [1, 0]] ! 0 ! 0 = sentinel \<and>
   overwrite_diagonal 2 [[0, 1], [1, 0]] ! 0 ! 1 = 1 \<and>
   (0, 0) \<in> set (binary_vars (build_model 2 (overwrite_diagonal 2 [[0, 1], [1, 0]]))) \<and>
   (2::nat) \<le> 2 \<and>
   [[0, 1], [1, 0 :: real]] ! 0 ! 1 = 1 \<and> [[0, 1], [1, 0 :: real]] ! 1 ! 0 = 1 \<and>
   real 2 * 1 < sentinel \<and>
   optimal (build_model 2 (overwrite_diagonal 2 [[0, 1], [1, 0]])) (tour_assignment [0, 1]) \<and>
   tour_assignment [0, 1] (X (0, 0)) = 0 \<and> tour_assignment [0, 1] (X (1, 1)) = 0 \<and>
   square 3 (replicate 3 (replicate 3 2000000000000)) \<and>
   overwrite_diagonal 3 (replicate 3 (replicate 3 2000000000000)) ! 2 ! 2 = sentinel"
proof -
  have two: "i = 0 \<or> i = 1" if "i < 2" for i :: nat using that by arith
  have off: "\<forall>i < 2. \<forall>j < 2. i \<noteq> j \<longrightarrow>
      0 \<le> [[0, 1], [1, 0 :: real]] ! i ! j \<and> [[0, 1], [1, 0 :: real]] ! i ! j \<le> 1"
    using two by (auto simp: nth_Cons')
  have small: "real 2 * 1 < sentinel" by (simp add: sentinel_def)
  have sq3: "square 3 (replicate 3 (replicate 3 (2000000000000 :: real)))"
    by (simp add: square_def list_all_iff)
  note main = no_self_arc_at_optimum [OF square_unit_2]
  note big = no_self_arc_at_optimum [OF sq3]
  from main have d: "overwrite_diagonal 2 [[0, 1], [1, 0]] ! 0 ! 0 = sentinel" by simp
  from main [THEN conjunct2, THEN conjunct1, rule_format, of 0 1]
  have o: "overwrite_diagonal 2 [[0, 1], [1, 0]] ! 0 ! 1 = 1" by simp
  from main have v: "(0, 0) \<in>
      set (binary_vars (build_model 2 (overwrite_diagonal 2 [[0, 1], [1, 0]])))" by simp
  have hyp: "2 \<le> (2::nat) \<and>
      (\<forall>i < 2. \<forall>j < 2. i \<noteq> j \<longrightarrow>
         0 \<le> [[0, 1], [1, 0 :: real]] ! i ! j \<and> [[0, 1], [1, 0 :: real]] ! i ! j \<le> 1) \<and>
      real 2 * 1 < sentinel \<and>
      optimal (build_model 2 (overwrite_diagonal 2 [[0, 1], [1, 0]])) (tour_assignment [0, 1])"
    using off small optimal_two_cycle by blast
  from main [THEN conjunct2, THEN conjunct2, THEN conjunct2, rule_format, OF hyp]
  have s0: "tour_assignment [0, 1] (X (0, 0)) = 0"
    and s1: "tour_assignment [0, 1] (X (1, 1)) = 0" by simp_all
  from big [THEN conjunct1, rule_format, of 2]
  have b: "overwrite_diagonal 3 (replicate 3 (replicate 3 2000000000000)) ! 2 ! 2 =
      sentinel" by simp
  from square_unit_2 d o v small optimal_two_cycle s0 s1 sq3 b show ?thesis by simp
qed

section \<open>Claim C10: every pair is looked up, the self-pairs too\<close>

lemma build_cost_returns:
  assumes "\<forall>i < length location. \<forall>j < length location. gd (location ! i) (location ! j) \<noteq> None"
  obtains s where "build_cost location gd = Inr s"
proof -
  from assms have "\<not> isl (build_cost location gd)" unfolding build_cost_isl by blast
  then show ?thesis using that by (cases "build_cost location gd") simp_all
qed

lemma isl_run: "isl (assemble location gd) \<Longrightarrow> isl (run location gd solve)"
  unfolding run_cases by (cases "assemble location gd") simp_all

text \<open>
  C10: when every lookup returns, the two loops of cell 14 return, having called
  \<open>get_distance\<close> for all \<open>n\<^sup>2\<close> ordered pairs in row order, the self-pairs included, and
  every entry, also on the diagonal, is the looked-up duration divided by 3600. The
  diagonal keeps these values through the cells that declare the model; cell 45 then
  overwrites exactly the diagonal with the sentinel, and that is the matrix of the
  assembled notebook. Conversely the build returns only if all \<open>n\<^sup>2\<close> lookups returned: a
  lookup that fails on a self-pair makes the build, the assembly and the run fail, and if
  it is the only failing lookup the error is that of this self-pair.
\<close>

theorem cost_build_looks_up_self_pairs:
  "((\<forall>i < length location. \<forall>j < length location. gd (location ! i) (location ! j) \<noteq> None) \<longrightarrow>
      (\<exists>s nb. build_cost location gd = Inr s \<and>
         calls s = x_keys (length location) \<and>
         (\<forall>i < length location. \<forall>j < length location.
            cost s ! i ! j = real_of_int (the (gd (location ! i) (location ! j))) / 3600 \<and>
            nb_cost (cells_29_to_41 (length location) s) ! i ! j =
              real_of_int (the (gd (location ! i) (location ! j))) / 3600 \<and>
            nb_cost (cell_45 (length location) (cells_29_to_41 (length location) s)) ! i ! j =
              (if i = j then sentinel
               else real_of_int (the (gd (location ! i) (location ! j))) / 3600)) \<and>
         assemble location gd = Inr nb \<and>
         nb_calls nb = x_keys (length location) \<and>
         nb_cost nb = nb_cost (cell_45 (length location) (cells_29_to_41 (length location) s)))) \<and>
   (\<forall>s. build_cost location gd = Inr s \<longrightarrow>
      calls s = x_keys (length location) \<and>
      (\<forall>i < length location. \<forall>j < length location.
         \<exists>d. gd (location ! i) (location ! j) = Some d \<and> cost s ! i ! j = real_of_int d / 3600)) \<and>
   (\<forall>i < length location. gd (location ! i) (location ! i) = None \<longrightarrow>
      isl (build_cost location gd) \<and> isl (assemble location gd) \<and>
      (\<forall>solve. isl (run location gd solve)) \<and>
      ((\<forall>i' < length location. \<forall>j' < length location.
          gd (location ! i') (location ! j') = None \<longrightarrow> i' = i \<and> j' = i) \<longrightarrow>
       build_cost location gd = Inl (LookupFailed i i) \<and>
       assemble location gd = Inl (LookupFailed i i)))"
proof (intro conjI allI impI)
  assume all: "\<forall>i < length location. \<forall>j < length location.
      gd (location ! i) (location ! j) \<noteq> None"
  then obtain s where s: "build_cost location gd = Inr s" by (rule build_cost_returns)
  note b = build_cost_Inr [OF s refl]
  let ?n = "length location"
  let ?nb = "cells_47_to_49 ?n (cell_45 ?n (cells_29_to_41 ?n s))"
  have entries: "cost s ! i ! j = real_of_int (the (gd (location ! i) (location ! j))) / 3600"
    if "i < ?n" "j < ?n" for i j
    using b(3) [OF that] by auto
  have before: "nb_cost (cells_29_to_41 ?n s) = cost s" by (simp add: cells_29_to_41_def)
  have after: "nb_cost (cell_45 ?n (cells_29_to_41 ?n s)) ! i ! j =
      (if i = j then sentinel else real_of_int (the (gd (location ! i) (location ! j))) / 3600)"
    if "i < ?n" "j < ?n" for i j
    using overwrite_diagonal_nth [OF b(1) that] entries [OF that]
    by (simp add: cell_45_def cells_29_to_41_def)
  have asm: "assemble location gd = Inr ?nb" using s by (simp add: assemble_def Let_def)
  have c: "nb_calls ?nb = x_keys ?n"
    using b(2) by (simp add: cells_47_to_49_def cell_45_def cells_29_to_41_def)
  have m: "nb_cost ?nb = nb_cost (cell_45 ?n (cells_29_to_41 ?n s))"
    by (simp add: cells_47_to_49_def)
  from s b(2) entries before after asm c m
  show "\<exists>s nb. build_cost location gd = Inr s \<and>
         calls s = x_keys (length location) \<and>
         (\<forall>i < length location. \<forall>j < length location.
            cost s ! i ! j = real_of_int (the (gd (location ! i) (location ! j))) / 3600 \<and>
            nb_cost (cells_29_to_41 (length location) s) ! i ! j =
              real_of_int (the (gd (location ! i) (location ! j))) / 3600 \<and>
            nb_cost (cell_45 (length location) (cells_29_to_41 (length location) s)) ! i ! j =
              (if i = j then sentinel
               else real_of_int (the (gd (location ! i) (location ! j))) / 3600)) \<and>
         assemble location gd = Inr nb \<and>
         nb_calls nb = x_keys (length location) \<and>
         nb_cost nb = nb_cost (cell_45 (length location) (cells_29_to_41 (length location) s))"
    by (intro exI [of _ s] exI [of _ ?nb]) simp
next
  fix s assume s: "build_cost location gd = Inr s"
  note b = build_cost_Inr [OF s refl]
  show "calls s = x_keys (length location)" by (rule b(2))
  show "\<exists>d. gd (location ! i) (location ! j) = Some d \<and> cost s ! i ! j = real_of_int d / 3600"
    if "i < length location" "j < length location" for i j
    using that by (rule b(3))
next
  fix i assume i: "i < length location" and none: "gd (location ! i) (location ! i) = None"
  then show fail: "isl (build_cost location gd)" unfolding build_cost_isl by blast
  then show fail': "isl (assemble location gd)" by (simp add: isl_assemble)
  then show "isl (run location gd solve)" for solve by (rule isl_run)
  assume only: "\<forall>i' < length location. \<forall>j' < length location.
      gd (location ! i') (location ! j') = None \<longrightarrow> i' = i \<and> j' = i"
  from fail obtain e where e: "build_cost location gd = Inl e"
    by (cases "build_cost location gd") simp_all
  from build_cost_Inl [OF e] obtain i' j' where ij: "i' < length location"
    "j' < length location" "e = LookupFailed i' j'"
    "gd (location ! i') (location ! j') = None" by blast
  with only have "i' = i \<and> j' = i" by blast
  with e ij(3) show "build_cost location gd = Inl (LookupFailed i i)" by simp
  then show "assemble location gd = Inl (LookupFailed i i)" by (simp add: assemble_cases)
qed

text \<open>
  Witness for C10: two locations. With every lookup returning 7200 seconds the four pairs are
  looked up, the diagonal holds 2 hours until cell 45 and the sentinel after it; with a
  lookup that raises only on the self-pair of the second location the build fails with the
  error of the pair (1, 1).
\<close>

theorem cost_build_looks_up_self_pairs_witness:
  "build_cost [''A'', ''B''] (\<lambda>a b. Some 7200) =
     Inr \<lparr>cost = [[2, 2], [2, 2]], calls = [(0, 0), (0, 1), (1, 0), (1, 1)]\<rparr> \<and>
   [(0, 0), (0, 1), (1, 0), (1, 1)] = x_keys 2 \<and>
   (\<exists>nb. assemble [''A'', ''B''] (\<lambda>a b. Some 7200) = Inr nb \<and>
         nb_calls nb = x_keys 2 \<and>
         nb_cost nb ! 0 ! 0 = sentinel \<and> nb_cost nb ! 0 ! 1 = 2 \<and>
         nb_cost nb ! 1 ! 0 = 2 \<and> nb_cost nb ! 1 ! 1 = sentinel) \<and>
   (\<lambda>a b. if a = ''B'' \<and> b = ''B'' then None else Some (7200 :: int))
      ([''A'', ''B''] ! 1) ([''A'', ''B''] ! 1) = None \<and>
   build_cost [''A'', ''B''] (\<lambda>a b. if a = ''B'' \<and> b = ''B'' then None else Some 7200) =
     Inl (LookupFailed 1 1) \<and>
   isl (run [''A'', ''B''] (\<lambda>a b. if a = ''B'' \<and> b = ''B'' then None else Some 7200)
          (\<lambda>m. Some self_loops))"
proof -
  let ?loc = "[''A'', ''B'']"
  let ?ok = "\<lambda>a b :: string. Some (7200 :: int)"
  let ?bad = "\<lambda>a b. if a = ''B'' \<and> b = ''B'' then None else Some (7200 :: int)"
  let ?s = "\<lparr>cost = [[2, 2], [2, 2]], calls = [(0, 0), (0, 1), (1, 0), (1, 1)]\<rparr>"
  have len: "length ?loc = 2" by simp
  have two: "i = 0 \<or> i = 1" if "i < 2" for i :: nat using that by arith
  note good = cost_build_looks_up_self_pairs [of ?loc ?ok, unfolded len]
  note fails = cost_build_looks_up_self_pairs [of ?loc ?bad, unfolded len]
  have all: "\<forall>i < 2. \<forall>j < 2. ?ok (?loc ! i) (?loc ! j) \<noteq> None" by simp
  from good [THEN conjunct1, THEN mp, OF all] obtain s nb where
    s: "build_cost ?loc ?ok = Inr s" and c: "calls s = x_keys 2"
    and e: "\<forall>i < 2. \<forall>j < 2.
        nb_cost (cell_45 2 (cells_29_to_41 2 s)) ! i ! j =
          (if i = j then sentinel else real_of_int (the (?ok (?loc ! i) (?loc ! j))) / 3600)"
    and a: "assemble ?loc ?ok = Inr nb" and nc: "nb_calls nb = x_keys 2"
    and m: "nb_cost nb = nb_cost (cell_45 2 (cells_29_to_41 2 s))"
    by blast
  from s build_cost_two_locations have s_eq: "s = ?s" by simp
  with c have keys: "[(0, 0), (0, 1), (1, 0), (1, 1)] = x_keys 2" by simp
  from e m have e00: "nb_cost nb ! 0 ! 0 = sentinel" and e11: "nb_cost nb ! 1 ! 1 = sentinel"
    by simp_all
  from e [rule_format, of 0 1] m have e01: "nb_cost nb ! 0 ! 1 = 2" by simp
  from e [rule_format, of 1 0] m have e10: "nb_cost nb ! 1 ! 0 = 2" by simp
  have none: "?bad (?loc ! 1) (?loc ! 1) = None" by simp
  have only: "\<forall>i' < 2. \<forall>j' < 2. ?bad (?loc ! i') (?loc ! j') = None \<longrightarrow> i' = 1 \<and> j' = 1"
  proof (intro allI impI)
    fix i' j' :: nat
    assume "i' < 2" "j' < 2" and h: "?bad (?loc ! i') (?loc ! j') = None"
    then have "i' = 0 \<or> i' = 1" "j' = 0 \<or> j' = 1" by arith+
    with h show "i' = 1 \<and> j' = 1" by (auto split: if_splits)
  qed
  have one: "(1::nat) < 2" by simp
  note at1 = fails [THEN conjunct2, THEN conjunct2, THEN spec, THEN mp, THEN mp, OF one none]
  from at1 have r: "isl (run ?loc ?bad (\<lambda>m. Some self_loops))" by blast
  from at1 only have f: "build_cost ?loc ?bad = Inl (LookupFailed 1 1)" by blast
  from build_cost_two_locations keys a nc e00 e01 e10 e11 none f r show ?thesis by blast
qed

end
